theory Spec2Isabelle
  imports Main "HOL-Library.Char_ord"
begin

section \<open>Bytes, C strings and Python strings\<close>

text \<open>
  The module \<^verbatim>\<open>src/dnaio/_core.pyx\<close> works on raw \<^verbatim>\<open>char *\<close> buffers. A byte is a
  \<^typ>\<open>char\<close> (eight bits); a bytes object is a list of bytes. A Python \<^verbatim>\<open>str\<close> is
  the list of its code points; CPython stores it with one byte per character
  (\<^verbatim>\<open>PyUnicode_1BYTE_KIND\<close>) exactly when every code point is below 256.
\<close>

type_synonym byte = char
type_synonym bytes = "byte list"
type_synonym py_str = "nat list"

abbreviation NUL :: byte where "NUL \<equiv> CHR 0x00"
abbreviation LF :: byte where "LF \<equiv> CHR 0x0A"
abbreviation CR :: byte where "CR \<equiv> CHR 0x0D"
abbreviation TAB :: byte where "TAB \<equiv> CHR 0x09"
abbreviation SPACE :: byte where "SPACE \<equiv> CHR 0x20"

definition is_1byte_kind :: "py_str \<Rightarrow> bool" where
  "is_1byte_kind s = list_all (\<lambda>c. c < 256) s"

definition PyUnicode_1BYTE_DATA :: "py_str \<Rightarrow> bytes" where
  "PyUnicode_1BYTE_DATA s = map char_of s"

text \<open>
  \<^verbatim>\<open>PyBytes_AS_STRING\<close> and \<^verbatim>\<open>PyUnicode_1BYTE_DATA\<close> return a pointer to the content
  followed by one terminating NUL byte. Reading the pointer at offset \<open>i\<close> is defined for
  \<open>i \<le> length h\<close>; any other offset is outside the object, and the read is \<open>None\<close>.
\<close>

definition c_index :: "bytes \<Rightarrow> nat \<Rightarrow> byte option" where
  "c_index h i =
     (if i < length h then Some (h ! i) else if i = length h then Some NUL else None)"

text \<open>\<^verbatim>\<open>strcspn(s, reject)\<close>: the offset of the first byte of \<open>s\<close> that is in \<open>reject\<close>, or of
  the first NUL (the terminator when the content has none).\<close>

definition strcspn :: "bytes \<Rightarrow> bytes \<Rightarrow> nat" where
  "strcspn s reject = length (takeWhile (\<lambda>c. c \<noteq> NUL \<and> c \<notin> set reject) s)"

text \<open>\<^verbatim>\<open>memcmp(a, b, n) == 0\<close>, defined when both pointers have \<open>n\<close> readable bytes.\<close>

definition memcmp_eq :: "bytes \<Rightarrow> bytes \<Rightarrow> nat \<Rightarrow> bool option" where
  "memcmp_eq a b n =
     (if n \<le> length a + 1 \<and> n \<le> length b + 1
      then Some (take n (a @ [NUL]) = take n (b @ [NUL])) else None)"

text \<open>\<^verbatim>\<open>size_t\<close> is unsigned and 64 bits wide: a subtraction that would go below zero
  wraps around.\<close>

definition size_t_sub :: "nat \<Rightarrow> nat \<Rightarrow> nat" where
  "size_t_sub a b = (if b \<le> a then a - b else a + 2 ^ 64 - b)"

section \<open>Comparing record ids\<close>

text \<open>
  \<^verbatim>\<open>record_ids_match(char *header1, char *header2, size_t header1_length)\<close>. The result is
  \<open>None\<close> when the function reads a byte outside one of the two headers.
\<close>

definition is_pair_number :: "byte \<Rightarrow> bool" where
  "is_pair_number c = (CHR ''1'' \<le> c \<and> c \<le> CHR ''3'')"

definition record_ids_match :: "bytes \<Rightarrow> bytes \<Rightarrow> nat \<Rightarrow> bool option" where
  "record_ids_match header1 header2 header1_length =
     (let id2_length = strcspn header2 [SPACE, TAB] in
      if header1_length < id2_length then Some False
      else
        (case c_index header1 id2_length of
           None \<Rightarrow> None
         | Some end \<Rightarrow>
             if end \<noteq> NUL \<and> end \<noteq> SPACE \<and> end \<noteq> TAB then Some False
             else
               (case c_index header1 (size_t_sub id2_length 1) of
                  None \<Rightarrow> None
                | Some c1 \<Rightarrow>
                    (case c_index header2 (size_t_sub id2_length 1) of
                       None \<Rightarrow> None
                     | Some c2 \<Rightarrow>
                         (let id1endswithnumber = is_pair_number c1;
                              id2endswithnumber = is_pair_number c2;
                              id2_length =
                                (if id1endswithnumber \<and> id2endswithnumber
                                 then size_t_sub id2_length 1 else id2_length)
                          in memcmp_eq header1 header2 id2_length)))))"

text \<open>\<^verbatim>\<open>record_names_match_bytes\<close> and \<^verbatim>\<open>BytesSequence.is_mate\<close> pass the length of the
  first header.\<close>

definition record_names_match_bytes :: "bytes \<Rightarrow> bytes \<Rightarrow> bool option" where
  "record_names_match_bytes header1 header2 =
     record_ids_match header1 header2 (length header1)"

text \<open>
  The policy of the specification, in its own words: \<open>id2_end\<close> is the position of the
  first space or tab of \<open>header2\<close> or its length; the tail byte \<open>header1[id2_end]\<close> must be
  the end of the string, a space or a tab; a trailing 1, 2 or 3 on both ids is dropped;
  the two prefixes are compared.
\<close>

definition spec_ids_match :: "bytes \<Rightarrow> bytes \<Rightarrow> nat \<Rightarrow> bool" where
  "spec_ids_match header1 header2 header1_length =
     (let id2_end = length (takeWhile (\<lambda>c. c \<noteq> SPACE \<and> c \<noteq> TAB) header2) in
      if header1_length < id2_end then False
      else if id2_end < length header1 \<and> header1 ! id2_end \<noteq> SPACE
              \<and> header1 ! id2_end \<noteq> TAB then False
      else
        (let id2_end =
               (if header1 ! (id2_end - 1) \<in> {CHR ''1'', CHR ''2'', CHR ''3''}
                   \<and> header2 ! (id2_end - 1) \<in> {CHR ''1'', CHR ''2'', CHR ''3''}
                then id2_end - 1 else id2_end)
         in take id2_end header1 = take id2_end header2))"

section \<open>Serialising a record\<close>

text \<open>\<^verbatim>\<open>memcpy(dst + off, src, n)\<close> on a destination buffer held as a list.\<close>

definition memcpy :: "bytes \<Rightarrow> nat \<Rightarrow> bytes \<Rightarrow> nat \<Rightarrow> bytes" where
  "memcpy dst off src n = take off dst @ take n src @ drop (off + n) dst"

text \<open>
  \<^verbatim>\<open>create_fastq_record\<close>: the output is allocated once, at \<open>total_size\<close>, and filled in
  place through a cursor. The uninitialised allocation is shown as NUL bytes.
\<close>

definition create_fastq_record ::
  "bytes \<Rightarrow> bytes \<Rightarrow> bytes \<Rightarrow> nat \<Rightarrow> nat \<Rightarrow> nat \<Rightarrow> bool \<Rightarrow> bytes" where
  "create_fastq_record name sequence qualities
      name_length sequence_length qualities_length two_headers =
     (let total_size = name_length + sequence_length + qualities_length + 6;
          total_size = (if two_headers then total_size + name_length else total_size);
          retval = replicate total_size NUL;
          retval = retval[0 := CHR ''@''];
          retval = memcpy retval 1 name name_length;
          cursor = name_length + 1;
          retval = retval[cursor := LF];
          cursor = cursor + 1;
          retval = memcpy retval cursor sequence sequence_length;
          cursor = cursor + sequence_length;
          retval = retval[cursor := LF];
          cursor = cursor + 1;
          retval = retval[cursor := CHR ''+''];
          cursor = cursor + 1;
          retval = (if two_headers then memcpy retval cursor name name_length else retval);
          cursor = (if two_headers then cursor + name_length else cursor);
          retval = retval[cursor := LF];
          cursor = cursor + 1;
          retval = memcpy retval cursor qualities qualities_length;
          cursor = cursor + qualities_length;
          retval = retval[cursor := LF]
      in retval)"

text \<open>The two record classes. A \<^verbatim>\<open>Sequence\<close> holds text and its qualities may be
  \<^verbatim>\<open>None\<close>; a \<^verbatim>\<open>BytesSequence\<close> holds bytes.\<close>

record Sequence =
  name :: py_str
  sequence :: py_str
  qualities :: "py_str option"

record BytesSequence =
  bytes_name :: bytes
  bytes_sequence :: bytes
  bytes_qualities :: bytes

datatype fastq_message =
    ExpectedAt byte
  | ExpectedPlus byte
  | DescriptionsDontMatch bytes bytes
  | LengthsDiffer
  | PrematureEof bytes

text \<open>
  The exceptions of the module. A \<^verbatim>\<open>FastqFormatError\<close> carries its message, kept as the
  kind of the message with the values formatted into it, and its \<^verbatim>\<open>line\<close>.
  \<open>NotAString\<close> stands for \<^verbatim>\<open>PyUnicode_KIND\<close> applied to \<^verbatim>\<open>None\<close>, which C leaves
  undefined.
\<close>

datatype py_exception =
    StopIteration
  | FastqFormatError fastq_message nat
  | UnicodeEncodeError
  | ValueError
  | MemoryError
  | NotAString

text \<open>
  \<^verbatim>\<open>Sequence.fastq_bytes\<close>: a one-byte string is read in place; any other string holds
  a code point above 255, so \<^verbatim>\<open>encode('latin-1')\<close> and \<^verbatim>\<open>encode('ascii')\<close> raise.
\<close>

definition encoded :: "py_str \<Rightarrow> py_exception + bytes" where
  "encoded s = (if is_1byte_kind s then Inr (PyUnicode_1BYTE_DATA s) else Inl UnicodeEncodeError)"

definition fastq_bytes :: "Sequence \<Rightarrow> bool \<Rightarrow> py_exception + bytes" where
  "fastq_bytes self two_headers =
     (case encoded (name self) of
        Inl e \<Rightarrow> Inl e
      | Inr name_chars \<Rightarrow>
          (case encoded (sequence self) of
             Inl e \<Rightarrow> Inl e
           | Inr sequence_chars \<Rightarrow>
               (case qualities self of
                  None \<Rightarrow> Inl NotAString
                | Some q \<Rightarrow>
                    (case encoded q of
                       Inl e \<Rightarrow> Inl e
                     | Inr qualities_chars \<Rightarrow>
                         Inr (create_fastq_record name_chars sequence_chars qualities_chars
                                (length name_chars) (length sequence_chars)
                                (length qualities_chars) two_headers)))))"

definition bytes_fastq_bytes :: "BytesSequence \<Rightarrow> bool \<Rightarrow> bytes" where
  "bytes_fastq_bytes self two_headers =
     create_fastq_record (bytes_name self) (bytes_sequence self) (bytes_qualities self)
       (length (bytes_name self)) (length (bytes_sequence self))
       (length (bytes_qualities self)) two_headers"

text \<open>Whether a byte string holds a carriage return directly followed by a line feed.\<close>

fun has_crlf :: "bytes \<Rightarrow> bool" where
  "has_crlf (a # b # cs) = ((a = CR \<and> b = LF) \<or> has_crlf (b # cs))"
| "has_crlf _ = False"

definition ends_with_cr :: "bytes \<Rightarrow> bool" where
  "ends_with_cr xs = (xs \<noteq> [] \<and> last xs = CR)"

text \<open>The record as the specification writes it: \<^verbatim>\<open>@NAME\\nSEQ\\n+[NAME]\\nQUAL\\n\<close>.\<close>

definition spec_fastq_record :: "bytes \<Rightarrow> bytes \<Rightarrow> bytes \<Rightarrow> bool \<Rightarrow> bytes" where
  "spec_fastq_record name_chars sequence_chars qualities_chars two_headers =
     [CHR ''@''] @ name_chars @ [LF] @ sequence_chars @ [LF] @ [CHR ''+'']
       @ (if two_headers then name_chars else []) @ [LF] @ qualities_chars @ [LF]"

section \<open>Scanning for line ends\<close>

text \<open>
  \<^verbatim>\<open>memchr(buf + start, c, n)\<close>, as the offset from \<open>buf\<close> of the first \<open>c\<close> among the
  \<open>n\<close> bytes that start at offset \<open>start\<close>, or \<open>None\<close> for \<^verbatim>\<open>NULL\<close>. The callers keep the
  window inside the initialised part of the buffer.
\<close>

primrec index_of :: "byte \<Rightarrow> bytes \<Rightarrow> nat option" where
  "index_of c [] = None"
| "index_of c (x # xs) = (if x = c then Some 0 else map_option Suc (index_of c xs))"

definition memchr :: "bytes \<Rightarrow> nat \<Rightarrow> byte \<Rightarrow> nat \<Rightarrow> nat option" where
  "memchr buf start c n = map_option (\<lambda>i. start + i) (index_of c (take n (drop start buf)))"

section \<open>Heads of two paired buffers\<close>

text \<open>
  The loop of \<^verbatim>\<open>paired_fastq_heads\<close>. Positions are offsets into the two buffers;
  \<open>data1_end\<close> and \<open>data2_end\<close> are the offsets at which the scans stop.
\<close>

function paired_fastq_heads_loop ::
  "bytes \<Rightarrow> bytes \<Rightarrow> nat \<Rightarrow> nat \<Rightarrow> nat \<Rightarrow> nat \<Rightarrow> nat \<Rightarrow> nat \<Rightarrow> nat \<Rightarrow> nat \<times> nat" where
  "paired_fastq_heads_loop data1 data2 data1_end data2_end pos1 pos2 linebreaks
      record_start1 record_start2 =
     (case memchr data1 pos1 LF (data1_end - pos1) of
        None \<Rightarrow> (record_start1, record_start2)
      | Some p1 \<Rightarrow>
          (case memchr data2 pos2 LF (data2_end - pos2) of
             None \<Rightarrow> (record_start1, record_start2)
           | Some p2 \<Rightarrow>
               (if linebreaks + 1 = 4
                then paired_fastq_heads_loop data1 data2 data1_end data2_end
                       (p1 + 1) (p2 + 1) 0 (p1 + 1) (p2 + 1)
                else paired_fastq_heads_loop data1 data2 data1_end data2_end
                       (p1 + 1) (p2 + 1) (linebreaks + 1) record_start1 record_start2)))"
  by pat_completeness auto

lemma index_of_less: "index_of c xs = Some i \<Longrightarrow> i < length xs"
  by (induction xs arbitrary: i) (auto split: if_splits)

lemma memchr_less: "memchr buf start c n = Some p \<Longrightarrow> start \<le> p \<and> p < start + n"
  by (auto simp: memchr_def dest!: index_of_less)

termination paired_fastq_heads_loop
  by (relation "measure (\<lambda>(d1, d2, e1, e2, pos1, pos2, lb, r1, r2). e1 - pos1)")
     (auto dest!: memchr_less)

declare paired_fastq_heads_loop.simps [simp del]

text \<open>
  \<^verbatim>\<open>paired_fastq_heads(buf1, buf2, end1, end2)\<close>. The two ends are signed
  (\<^verbatim>\<open>Py_ssize_t\<close>). With a negative end the length handed to \<^verbatim>\<open>memchr\<close> wraps around
  to a huge \<^verbatim>\<open>size_t\<close> and the scan is no longer confined to the buffer: the model
  gives no result there.
\<close>

definition paired_fastq_heads :: "bytes \<Rightarrow> bytes \<Rightarrow> int \<Rightarrow> int \<Rightarrow> (nat \<times> nat) option" where
  "paired_fastq_heads buf1 buf2 end1 end2 =
     (if end1 < 0 \<or> end2 < 0 then None
      else
        (let data1_end = min (nat end1) (length buf1);
             data2_end = min (nat end2) (length buf2)
         in Some (paired_fastq_heads_loop buf1 buf2 data1_end data2_end 0 0 0 0 0)))"

text \<open>A cut position \<open>r\<close> of a buffer is at a line boundary: the prefix is empty, or its last
  byte is a line feed.\<close>

definition at_line_boundary :: "bytes \<Rightarrow> nat \<Rightarrow> bool" where
  "at_line_boundary d r = (r = 0 \<or> d ! (r - 1) = LF)"

section \<open>The FASTQ iterator\<close>

text \<open>
  \<^verbatim>\<open>strncmp(a, b, n) == 0\<close> for two pointers with \<open>n\<close> readable bytes each: the
  comparison stops behind a NUL byte that both hold at the same place.
\<close>

definition strncmp_eq :: "bytes \<Rightarrow> bytes \<Rightarrow> nat \<Rightarrow> bool" where
  "strncmp_eq a b n =
     (takeWhile (\<lambda>c. c \<noteq> NUL) (take n a) = takeWhile (\<lambda>c. c \<noteq> NUL) (take n b))"

text \<open>
  The four scans of \<^verbatim>\<open>__next__\<close> for the line ends of the record at \<open>record_start\<close>.
  Each scan that finds no line feed leads to the same \<^verbatim>\<open>_read_into_buffer(); continue\<close>,
  so the four are gathered: \<open>None\<close> when one of them returns \<^verbatim>\<open>NULL\<close>.
\<close>

definition find_record_ends :: "bytes \<Rightarrow> nat \<Rightarrow> (nat \<times> nat \<times> nat \<times> nat) option" where
  "find_record_ends buffer record_start =
     (case memchr buffer record_start LF (length buffer - record_start) of
        None \<Rightarrow> None
      | Some name_end \<Rightarrow>
          (let sequence_start = name_end + 1 in
           case memchr buffer sequence_start LF (length buffer - sequence_start) of
             None \<Rightarrow> None
           | Some sequence_end \<Rightarrow>
               (let second_header_start = sequence_end + 1 in
                case memchr buffer second_header_start LF
                       (length buffer - second_header_start) of
                  None \<Rightarrow> None
                | Some second_header_end \<Rightarrow>
                    (let qualities_start = second_header_end + 1 in
                     case memchr buffer qualities_start LF
                            (length buffer - qualities_start) of
                       None \<Rightarrow> None
                     | Some qualities_end \<Rightarrow>
                         Some (name_end, sequence_end, second_header_end, qualities_end)))))"

text \<open>
  The checks of \<^verbatim>\<open>__next__\<close> on a record whose four line ends are known, in the order
  of the source. On success the result holds the three byte ranges that the source
  copies into the new record, and \<open>second_header_length\<close>. The offsets are
  \<^verbatim>\<open>Py_ssize_t\<close> in the source; none of the differences below is negative when the
  ends come from \<open>find_record_ends\<close>, so they are natural numbers here.
\<close>

definition check_record ::
  "bytes \<Rightarrow> nat \<Rightarrow> nat \<Rightarrow> nat \<Rightarrow> nat \<Rightarrow> nat \<Rightarrow> nat \<Rightarrow>
     py_exception + (bytes \<times> bytes \<times> bytes \<times> nat)" where
  "check_record buffer record_start name_end sequence_end second_header_end qualities_end
      number_of_records =
     (let sequence_start = name_end + 1;
          second_header_start = sequence_end + 1;
          qualities_start = second_header_end + 1
      in
        if buffer ! record_start \<noteq> CHR ''@''
        then Inl (FastqFormatError (ExpectedAt (buffer ! record_start))
                    (number_of_records * 4))
        else if buffer ! second_header_start \<noteq> CHR ''+''
        then Inl (FastqFormatError (ExpectedPlus (buffer ! second_header_start))
                    (number_of_records * 4 + 2))
        else
          (let name_start = record_start + 1;
               second_header_start = second_header_start + 1;
               name_length = name_end - name_start;
               sequence_length = sequence_end - sequence_start;
               second_header_length = second_header_end - second_header_start;
               qualities_length = qualities_end - qualities_start;
               name_length =
                 (if buffer ! (name_end - 1) = CR then name_length - 1 else name_length);
               sequence_length =
                 (if buffer ! (sequence_end - 1) = CR
                  then sequence_length - 1 else sequence_length);
               second_header_length =
                 (if buffer ! (second_header_end - 1) = CR
                  then second_header_length - 1 else second_header_length);
               qualities_length =
                 (if buffer ! (qualities_end - 1) = CR
                  then qualities_length - 1 else qualities_length)
           in
             if second_header_length \<noteq> 0
                \<and> (name_length \<noteq> second_header_length
                   \<or> \<not> strncmp_eq (drop second_header_start buffer) (drop name_start buffer)
                          second_header_length)
             then Inl (FastqFormatError
                         (DescriptionsDontMatch
                            (take (name_end - name_start) (drop name_start buffer))
                            (take (second_header_end - second_header_start)
                               (drop second_header_start buffer)))
                         (number_of_records * 4 + 2))
             else if qualities_length \<noteq> sequence_length
             then Inl (FastqFormatError LengthsDiffer (number_of_records * 4 + 3))
             else Inr (take name_length (drop name_start buffer),
                       take sequence_length (drop sequence_start buffer),
                       take qualities_length (drop qualities_start buffer),
                       second_header_length)))"

text \<open>
  The class of the records: one of the two built-in classes or a class of the caller,
  which receives the three text values. What a class of the caller builds from them is
  kept as \<open>PyCustom\<close> of the three values.
\<close>

datatype sequence_class = SequenceClass | BytesSequenceClass | CustomClass

datatype py_value =
    PyBool bool
  | PySequence Sequence
  | PyBytesSequence BytesSequence
  | PyCustom py_str py_str py_str

text \<open>\<^verbatim>\<open>PyUnicode_New(n, 255)\<close> filled by \<^verbatim>\<open>memcpy\<close>: one code point per byte.\<close>

definition latin1_str :: "bytes \<Rightarrow> py_str" where
  "latin1_str b = map of_char b"

definition make_record :: "sequence_class \<Rightarrow> bytes \<Rightarrow> bytes \<Rightarrow> bytes \<Rightarrow> py_value" where
  "make_record cls name_bytes sequence_bytes qualities_bytes =
     (if cls = BytesSequenceClass
      then PyBytesSequence \<lparr>bytes_name = name_bytes, bytes_sequence = sequence_bytes,
                            bytes_qualities = qualities_bytes\<rparr>
      else if cls \<noteq> SequenceClass \<and> cls \<noteq> BytesSequenceClass
      then PyCustom (latin1_str name_bytes) (latin1_str sequence_bytes)
                    (latin1_str qualities_bytes)
      else PySequence \<lparr>name = latin1_str name_bytes, sequence = latin1_str sequence_bytes,
                       qualities = Some (latin1_str qualities_bytes)\<rparr>)"

text \<open>
  The state of a \<^verbatim>\<open>FastqIter\<close>. \<open>buffer\<close> holds the initialised bytes of the C buffer,
  so \<^verbatim>\<open>bytes_in_buffer\<close> is its length and \<open>buffer_size\<close> is the allocated size. \<open>file_obj\<close> is
  what the binary file still has to deliver: \<^verbatim>\<open>read(n)\<close> returns its first \<open>n\<close> bytes, or
  all of them when fewer are left.
\<close>

record FastqIter =
  buffer_size :: nat
  buffer :: bytes
  sequence_class :: sequence_class
  extra_newline :: bool
  yielded_two_headers :: bool
  eof :: bool
  file_obj :: bytes
  record_start :: nat
  number_of_records :: nat

definition bytes_in_buffer :: "FastqIter \<Rightarrow> nat" where
  "bytes_in_buffer self = length (buffer self)"

text \<open>\<^verbatim>\<open>__cinit__\<close>: \<^verbatim>\<open>PyMem_Malloc\<close> refuses a negative size, and a size below 1 is a
  \<^verbatim>\<open>ValueError\<close>.\<close>

definition FastqIter_cinit :: "bytes \<Rightarrow> sequence_class \<Rightarrow> int \<Rightarrow> py_exception + FastqIter" where
  "FastqIter_cinit f cls initial_size =
     (if initial_size < 0 then Inl MemoryError
      else if initial_size < 1 then Inl ValueError
      else Inr \<lparr>buffer_size = nat initial_size, buffer = [], sequence_class = cls,
                extra_newline = False, yielded_two_headers = False, eof = False,
                file_obj = f, record_start = 0, number_of_records = 0\<rparr>)"

text \<open>\<^verbatim>\<open>_read_into_buffer\<close>. The first component is the exception raised, if any.\<close>

definition read_into_buffer :: "FastqIter \<Rightarrow> py_exception option \<times> FastqIter" where
  "read_into_buffer self =
     (let self =
            (if record_start self = 0 \<and> bytes_in_buffer self = buffer_size self
             then self\<lparr>buffer_size := buffer_size self * 2\<rparr>
             else self\<lparr>buffer := drop (record_start self) (buffer self), record_start := 0\<rparr>);
          empty_bytes_in_buffer = buffer_size self - bytes_in_buffer self;
          filechunk = take empty_bytes_in_buffer (file_obj self);
          self = self\<lparr>file_obj := drop empty_bytes_in_buffer (file_obj self)\<rparr>;
          filechunk_size = length filechunk;
          self = self\<lparr>buffer := buffer self @ filechunk\<rparr>
      in
        if filechunk_size = 0 then
          (if bytes_in_buffer self = 0 then (None, self\<lparr>eof := True\<rparr>)
           else if \<not> extra_newline self \<and> last (buffer self) \<noteq> LF
           then (None, self\<lparr>buffer := buffer self @ [LF], extra_newline := True\<rparr>)
           else
             (let self = (if extra_newline self
                          then self\<lparr>buffer := butlast (buffer self)\<rparr> else self);
                  tail = drop (record_start self) (buffer self);
                  lines = count_list tail LF
              in (Some (FastqFormatError (PrematureEof tail)
                          (number_of_records self * 4 + lines)), self)))
        else (None, self))"

lemma read_into_buffer_progress:
  assumes "read_into_buffer self = (None, self')" and "\<not> eof self"
  shows "3 * length (file_obj self')
            + (if eof self' then 0 else if extra_newline self' then 1 else 2)
           < 3 * length (file_obj self)
            + (if eof self then 0 else if extra_newline self then 1 else 2)"
  using assms
  by (auto simp: read_into_buffer_def bytes_in_buffer_def Let_def take_eq_Nil
           split: if_splits simp flip: length_greater_0_conv)

text \<open>\<^verbatim>\<open>__next__\<close>: the loop runs until a record is complete, the file ends or an
  exception is raised.\<close>

function FastqIter_next :: "FastqIter \<Rightarrow> (py_exception + py_value) \<times> FastqIter" where
  "FastqIter_next self =
     (if eof self then (Inl StopIteration, self)
      else
        (case find_record_ends (buffer self) (record_start self) of
           None \<Rightarrow>
             (case read_into_buffer self of
                (exc, self') \<Rightarrow>
                  (case exc of
                     Some e \<Rightarrow> (Inl e, self')
                   | None \<Rightarrow> FastqIter_next self'))
         | Some (name_end, sequence_end, second_header_end, qualities_end) \<Rightarrow>
             (case check_record (buffer self) (record_start self) name_end sequence_end
                     second_header_end qualities_end (number_of_records self) of
                Inl e \<Rightarrow> (Inl e, self)
              | Inr (name_bytes, sequence_bytes, qualities_bytes, second_header_length) \<Rightarrow>
                  if number_of_records self = 0 \<and> \<not> yielded_two_headers self
                  then (Inr (PyBool (second_header_length \<noteq> 0)),
                        self\<lparr>yielded_two_headers := True\<rparr>)
                  else (Inr (make_record (sequence_class self) name_bytes sequence_bytes
                               qualities_bytes),
                        self\<lparr>number_of_records := number_of_records self + 1,
                             record_start := qualities_end + 1\<rparr>))))"
  by pat_completeness auto

termination FastqIter_next
  by (relation "measure (\<lambda>self. 3 * length (file_obj self)
                  + (if eof self then 0 else if extra_newline self then 1 else 2))")
     (auto dest: read_into_buffer_progress [OF sym])

declare FastqIter_next.simps [simp del]

text \<open>
  Iterating the parser: the outcomes of the first \<open>k\<close> calls of \<^verbatim>\<open>__next__\<close>, up to and
  including the first exception.
\<close>

fun pull_events :: "nat \<Rightarrow> FastqIter \<Rightarrow> (py_exception + py_value) list" where
  "pull_events 0 self = []"
| "pull_events (Suc k) self =
     (case FastqIter_next self of
        (Inl e, self') \<Rightarrow> [Inl e]
      | (Inr v, self') \<Rightarrow> Inr v # pull_events k self')"

definition parse_events ::
  "bytes \<Rightarrow> sequence_class \<Rightarrow> int \<Rightarrow> nat \<Rightarrow> (py_exception + py_value) list" where
  "parse_events f cls initial_size k =
     (case FastqIter_cinit f cls initial_size of
        Inl e \<Rightarrow> [Inl e]
      | Inr self \<Rightarrow> pull_events k self)"

subsection \<open>The parser as a function of the unread stream\<close>

text \<open>
  What one call of \<^verbatim>\<open>__next__\<close> does depends only on the bytes not yet consumed (those
  pending in the buffer followed by those still in the file) and on the flags. The
  definitions of this subsection describe that dependence; they are related to the model
  of the source by the lemma \<open>next_refines_stream\<close> below.

  \<open>split_line\<close> cuts the first line off a byte string, \<open>split_record\<close> the first four
  lines; \<open>strip_cr\<close> drops one trailing carriage return; \<open>check_lines\<close> is
  \<open>check_record\<close> on the four lines of a record.
\<close>

definition split_line :: "bytes \<Rightarrow> (bytes \<times> bytes) option" where
  "split_line xs =
     (if LF \<in> set xs
      then Some (takeWhile (\<lambda>c. c \<noteq> LF) xs, tl (dropWhile (\<lambda>c. c \<noteq> LF) xs))
      else None)"

definition split_record :: "bytes \<Rightarrow> (bytes \<times> bytes \<times> bytes \<times> bytes \<times> bytes) option" where
  "split_record xs =
     (case split_line xs of
        None \<Rightarrow> None
      | Some (l1, r1) \<Rightarrow>
          (case split_line r1 of
             None \<Rightarrow> None
           | Some (l2, r2) \<Rightarrow>
               (case split_line r2 of
                  None \<Rightarrow> None
                | Some (l3, r3) \<Rightarrow>
                    (case split_line r3 of
                       None \<Rightarrow> None
                     | Some (l4, r4) \<Rightarrow> Some (l1, l2, l3, l4, r4)))))"


definition strip_cr :: "bytes \<Rightarrow> bytes" where
  "strip_cr xs = (if ends_with_cr xs then butlast xs else xs)"

definition check_lines ::
  "bytes \<Rightarrow> bytes \<Rightarrow> bytes \<Rightarrow> bytes \<Rightarrow> nat \<Rightarrow> py_exception + (bytes \<times> bytes \<times> bytes \<times> nat)" where
  "check_lines l1 l2 l3 l4 n =
     (if hd (l1 @ [LF]) \<noteq> CHR ''@''
      then Inl (FastqFormatError (ExpectedAt (hd (l1 @ [LF]))) (n * 4))
      else if hd (l3 @ [LF]) \<noteq> CHR ''+''
      then Inl (FastqFormatError (ExpectedPlus (hd (l3 @ [LF]))) (n * 4 + 2))
      else if strip_cr (tl l3) \<noteq> []
              \<and> (length (strip_cr (tl l1)) \<noteq> length (strip_cr (tl l3))
                 \<or> takeWhile (\<lambda>c. c \<noteq> NUL) (strip_cr (tl l3))
                     \<noteq> takeWhile (\<lambda>c. c \<noteq> NUL) (strip_cr (tl l1)))
      then Inl (FastqFormatError (DescriptionsDontMatch (tl l1) (tl l3)) (n * 4 + 2))
      else if length (strip_cr l4) \<noteq> length (strip_cr l2)
      then Inl (FastqFormatError LengthsDiffer (n * 4 + 3))
      else Inr (strip_cr (tl l1), strip_cr l2, strip_cr l4, length (strip_cr (tl l3))))"


text \<open>The unread stream with the flags of the iterator, and one call on it.\<close>

record stream_view =
  sv_rest :: bytes
  sv_class :: sequence_class
  sv_extra_newline :: bool
  sv_yielded :: bool
  sv_eof :: bool
  sv_records :: nat

definition view :: "FastqIter \<Rightarrow> stream_view" where
  "view self =
     \<lparr>sv_rest = drop (record_start self) (buffer self) @ file_obj self,
      sv_class = sequence_class self,
      sv_extra_newline = extra_newline self,
      sv_yielded = yielded_two_headers self,
      sv_eof = eof self,
      sv_records = number_of_records self\<rparr>"

function stream_next :: "stream_view \<Rightarrow> (py_exception + py_value) \<times> stream_view" where
  "stream_next v =
     (if sv_eof v then (Inl StopIteration, v)
      else
        (case split_record (sv_rest v) of
           Some (l1, l2, l3, l4, r) \<Rightarrow>
             (case check_lines l1 l2 l3 l4 (sv_records v) of
                Inl e \<Rightarrow> (Inl e, v)
              | Inr (name_bytes, sequence_bytes, qualities_bytes, second_header_length) \<Rightarrow>
                  if sv_records v = 0 \<and> \<not> sv_yielded v
                  then (Inr (PyBool (second_header_length \<noteq> 0)), v\<lparr>sv_yielded := True\<rparr>)
                  else (Inr (make_record (sv_class v) name_bytes sequence_bytes qualities_bytes),
                        v\<lparr>sv_records := sv_records v + 1, sv_rest := r\<rparr>))
         | None \<Rightarrow>
             if sv_rest v = [] then (Inl StopIteration, v\<lparr>sv_eof := True\<rparr>)
             else if \<not> sv_extra_newline v \<and> last (sv_rest v) \<noteq> LF
             then stream_next (v\<lparr>sv_rest := sv_rest v @ [LF], sv_extra_newline := True\<rparr>)
             else
               (let t = (if sv_extra_newline v then butlast (sv_rest v) else sv_rest v)
                in (Inl (FastqFormatError (PrematureEof t) (sv_records v * 4 + count_list t LF)),
                    v\<lparr>sv_rest := t\<rparr>))))"
  by pat_completeness auto

termination stream_next
  by (relation "measure (\<lambda>v. if sv_extra_newline v then 0 else 1)") auto

declare stream_next.simps [simp del]

definition fastq_inv :: "FastqIter \<Rightarrow> bool" where
  "fastq_inv self =
     (1 \<le> buffer_size self \<and> length (buffer self) \<le> buffer_size self
      \<and> record_start self \<le> length (buffer self)
      \<and> (extra_newline self \<longrightarrow> file_obj self = []))"


fun stream_events :: "nat \<Rightarrow> stream_view \<Rightarrow> (py_exception + py_value) list" where
  "stream_events 0 v = []"
| "stream_events (Suc k) v =
     (case stream_next v of
        (Inl e, v') \<Rightarrow> [Inl e]
      | (Inr x, v') \<Rightarrow> Inr x # stream_events k v')"

definition fresh_view :: "bytes \<Rightarrow> sequence_class \<Rightarrow> stream_view" where
  "fresh_view f cls =
     \<lparr>sv_rest = f, sv_class = cls, sv_extra_newline = False, sv_yielded = False,
      sv_eof = False, sv_records = 0\<rparr>"


subsection \<open>Vocabulary of the properties\<close>










section \<open>Properties of the id comparison\<close>

lemmas ids_match_unfold =
  record_ids_match_def strcspn_def c_index_def size_t_sub_def is_pair_number_def memcmp_eq_def

lemma is_pair_number_iff: "is_pair_number c \<longleftrightarrow> c \<in> {CHR ''1'', CHR ''2'', CHR ''3''}"
  by (cases c) (auto simp: is_pair_number_def)

lemma strcspn_le: "strcspn s reject \<le> length s"
  by (simp add: strcspn_def length_takeWhile_le)

lemma strcspn_no_NUL:
  "NUL \<notin> set s \<Longrightarrow>
   strcspn s [SPACE, TAB] = length (takeWhile (\<lambda>c. c \<noteq> SPACE \<and> c \<noteq> TAB) s)"
  unfolding strcspn_def
  by (rule arg_cong [where f = length], rule takeWhile_cong) auto

lemma memcmp_eq_in_bounds:
  "n \<le> length a \<Longrightarrow> n \<le> length b \<Longrightarrow> memcmp_eq a b n = Some (take n a = take n b)"
  by (simp add: memcmp_eq_def)

lemma record_ids_match_policy:
  assumes n1: "NUL \<notin> set header1" and n2: "NUL \<notin> set header2"
    and pos: "0 < strcspn header2 [SPACE, TAB]"
    and len: "header1_length \<le> length header1"
  shows "record_ids_match header1 header2 header1_length
           = Some (spec_ids_match header1 header2 header1_length)"
proof -
  define k where "k = strcspn header2 [SPACE, TAB]"
  have k2: "k \<le> length header2" by (simp add: k_def strcspn_le)
  have kspec: "length (takeWhile (\<lambda>c. c \<noteq> SPACE \<and> c \<noteq> TAB) header2) = k"
    using n2 by (simp add: k_def strcspn_no_NUL)
  have kpos: "0 < k" using pos by (simp add: k_def)
  show ?thesis
  proof (cases "header1_length < k")
    case True
    then show ?thesis
      by (simp add: record_ids_match_def spec_ids_match_def kspec k_def [symmetric])
  next
    case False
    then have k1: "k \<le> length header1" using len by simp
    have sub: "size_t_sub k (Suc 0) = k - Suc 0" using kpos by (simp add: size_t_sub_def)
    have "k - 1 < length header1" using k1 kpos by arith
    then have r1: "c_index header1 (k - Suc 0) = Some (header1 ! (k - Suc 0))"
      by (simp add: c_index_def)
    have "k - 1 < length header2" using k2 kpos by arith
    then have r2: "c_index header2 (k - Suc 0) = Some (header2 ! (k - Suc 0))"
      by (simp add: c_index_def)
    have nz: "k < length header1 \<Longrightarrow> header1 ! k \<noteq> NUL"
      using n1 by (metis nth_mem)
    have r0: "c_index header1 k = Some (if k < length header1 then header1 ! k else NUL)"
      using k1 by (simp add: c_index_def)
    have m: "\<And>j. j \<le> k \<Longrightarrow>
               memcmp_eq header1 header2 j = Some (take j header1 = take j header2)"
      using k1 k2 by (simp add: memcmp_eq_in_bounds)
    show ?thesis
      using False nz
      by (simp add: record_ids_match_def spec_ids_match_def kspec k_def [symmetric]
          sub r0 r1 r2 m is_pair_number_iff Let_def)
  qed
qed

lemma record_ids_match_refl:
  assumes "0 < strcspn h [SPACE, TAB]"
  shows "record_ids_match h h (length h) = Some True"
proof -
  define k where "k = strcspn h [SPACE, TAB]"
  have k2: "k \<le> length h" by (simp add: k_def strcspn_le)
  have kpos: "0 < k" using assms by (simp add: k_def)
  have sub: "size_t_sub k (Suc 0) = k - Suc 0" using kpos by (simp add: size_t_sub_def)
  have "k - 1 < length h" using k2 kpos by arith
  then have r1: "c_index h (k - Suc 0) = Some (h ! (k - Suc 0))"
    by (simp add: c_index_def)
  have e: "k < length h \<Longrightarrow> h ! k = NUL \<or> h ! k = SPACE \<or> h ! k = TAB"
    unfolding k_def strcspn_def
    using nth_length_takeWhile [of "\<lambda>c. c \<noteq> NUL \<and> c \<notin> set [SPACE, TAB]" h] by auto
  have r0: "c_index h k = Some (if k < length h then h ! k else NUL)"
    using k2 by (simp add: c_index_def)
  show ?thesis
    using k2 e
    by (auto simp add: record_ids_match_def k_def [symmetric] sub r0 r1 memcmp_eq_def Let_def)
qed

text \<open>
  Claim C4, as amended. For headers that hold no NUL byte, with a second header whose id
  is not empty and a first length within the first header, \<^verbatim>\<open>record_ids_match\<close>
  reads inside the headers and returns what the policy of the specification returns; the
  three examples of the specification hold; and a header whose id is not empty matches
  itself.
\<close>

theorem record_ids_match_implements_policy:
  "(\<forall>header1 header2 header1_length.
      NUL \<notin> set header1 \<and> NUL \<notin> set header2 \<and> 0 < strcspn header2 [SPACE, TAB]
        \<and> header1_length \<le> length header1 \<longrightarrow>
      record_ids_match header1 header2 header1_length
        = Some (spec_ids_match header1 header2 header1_length))
   \<and> record_ids_match ''read/1 comment'' ''read/2 other'' 13 = Some True
   \<and> record_ids_match ''readA'' ''readB'' 5 = Some False
   \<and> record_ids_match ''read1'' ''read1extra'' 5 = Some False
   \<and> (\<forall>h. 0 < strcspn h [SPACE, TAB] \<longrightarrow> record_ids_match h h (length h) = Some True)"
proof (intro conjI allI impI)
  fix header1 header2 header1_length
  assume "NUL \<notin> set header1 \<and> NUL \<notin> set header2 \<and> 0 < strcspn header2 [SPACE, TAB]
            \<and> header1_length \<le> length header1"
  then show "record_ids_match header1 header2 header1_length
               = Some (spec_ids_match header1 header2 header1_length)"
    by (simp add: record_ids_match_policy)
next
  show "record_ids_match ''read/1 comment'' ''read/2 other'' 13 = Some True"
    by (simp add: ids_match_unfold)
next
  show "record_ids_match ''readA'' ''readB'' 5 = Some False"
    by (simp add: ids_match_unfold)
next
  show "record_ids_match ''read1'' ''read1extra'' 5 = Some False"
    by (simp add: ids_match_unfold)
next
  fix h :: bytes
  assume "0 < strcspn h [SPACE, TAB]"
  then show "record_ids_match h h (length h) = Some True"
    by (rule record_ids_match_refl)
qed

theorem record_ids_match_implements_policy_witness:
  "record_ids_match ''read/1'' ''read/2 x'' 6 = Some (spec_ids_match ''read/1'' ''read/2 x'' 6)
   \<and> spec_ids_match ''read/1'' ''read/2 x'' 6
   \<and> record_ids_match ''r.1 a'' ''r.1 a'' 5 = Some True"
proof -
  have a: "NUL \<notin> set ''read/1'' \<and> NUL \<notin> set ''read/2 x'' \<and> 0 < strcspn ''read/2 x'' [SPACE, TAB]
             \<and> 6 \<le> length ''read/1''"
    by (simp add: strcspn_def)
  have b: "0 < strcspn ''r.1 a'' [SPACE, TAB]"
    by (simp add: strcspn_def)
  have c: "spec_ids_match ''read/1'' ''read/2 x'' 6"
    by (simp add: spec_ids_match_def)
  have p: "record_ids_match ''read/1'' ''read/2 x'' 6
             = Some (spec_ids_match ''read/1'' ''read/2 x'' 6)"
    using record_ids_match_implements_policy [THEN conjunct1, rule_format, OF a] .
  have len: "length ''r.1 a'' = 5"
    by simp
  have r: "record_ids_match ''r.1 a'' ''r.1 a'' 5 = Some True"
    using record_ids_match_implements_policy
      [THEN conjunct2, THEN conjunct2, THEN conjunct2, THEN conjunct2, rule_format, OF b]
    unfolding len .
  from p c r show ?thesis by simp
qed

text \<open>
  The claim as stated fails at two places. The empty header does not match itself: the
  read at offset \<open>id2_length - 1\<close> leaves the header. And a NUL byte inside the second
  header ends its id for \<^verbatim>\<open>strcspn\<close>, but not for the policy of the specification.
\<close>

theorem record_ids_match_policy_counterexample:
  "record_ids_match [] [] (length ([] :: bytes)) = None
   \<and> record_ids_match ''a'' [CHR ''a'', NUL, CHR ''b''] 1 = Some True
   \<and> spec_ids_match ''a'' [CHR ''a'', NUL, CHR ''b''] 1 = False"
  by (simp add: ids_match_unfold spec_ids_match_def)

text \<open>
  Claim C9 says that every read stays inside the headers. For two headers that start
  with a space the id of the second is empty, \<open>id2_length - 1\<close> wraps around, and the
  read of \<open>header1[id2_length - 1]\<close> is outside the header.
\<close>

theorem record_ids_match_reads_before_header:
  "strcspn '' y'' [SPACE, TAB] = 0
   \<and> c_index '' x'' (size_t_sub (strcspn '' y'' [SPACE, TAB]) 1) = None
   \<and> record_ids_match '' x'' '' y'' 2 = None
   \<and> record_names_match_bytes [] [] = None"
  by (simp add: ids_match_unfold record_names_match_bytes_def)

section \<open>Properties of the serialiser\<close>

lemma update_fresh:
  "m = Suc m' \<Longrightarrow> length pre = i \<Longrightarrow>
   (pre @ replicate m NUL)[i := c] = (pre @ [c]) @ replicate m' NUL"
  by (auto simp: list_update_append)

lemma memcpy_fresh:
  "m = length src + m' \<Longrightarrow> length pre = i \<Longrightarrow>
   memcpy (pre @ replicate m NUL) i src (length src) = (pre @ src) @ replicate m' NUL"
  by (simp add: memcpy_def replicate_add)

text \<open>The cursor writes of \<^verbatim>\<open>create_fastq_record\<close> fill the allocation exactly, with the
  record of the specification.\<close>

lemma create_fastq_record_eq:
  "create_fastq_record n s q (length n) (length s) (length q) two_headers =
     spec_fastq_record n s q two_headers"
proof -
  define x where "x = (if two_headers then length n else 0)"
  define h where "h = (if two_headers then n else [])"
  have hx: "length h = x" by (simp add: h_def x_def)
  define r0 where
    "r0 = replicate (if two_headers then length n + length s + length q + 6 + length n
                     else length n + length s + length q + 6) NUL"
  define r1 where "r1 = r0[0 := CHR ''@'']"
  define r2 where "r2 = memcpy r1 1 n (length n)"
  define r3 where "r3 = r2[length n + 1 := LF]"
  define r4 where "r4 = memcpy r3 (length n + 1 + 1) s (length s)"
  define r5 where "r5 = r4[length n + 1 + 1 + length s := LF]"
  define r6 where "r6 = r5[length n + 1 + 1 + length s + 1 := CHR ''+'']"
  define r7 where
    "r7 = (if two_headers then memcpy r6 (length n + 1 + 1 + length s + 1 + 1) n (length n)
           else r6)"
  define c7 where
    "c7 = (if two_headers then length n + 1 + 1 + length s + 1 + 1 + length n
           else length n + 1 + 1 + length s + 1 + 1)"
  define r8 where "r8 = r7[c7 := LF]"
  define r9 where "r9 = memcpy r8 (c7 + 1) q (length q)"
  define r10 where "r10 = r9[c7 + 1 + length q := LF]"
  have unfolded: "create_fastq_record n s q (length n) (length s) (length q) two_headers = r10"
    unfolding create_fastq_record_def Let_def r10_def r9_def r8_def c7_def r7_def r6_def r5_def
      r4_def r3_def r2_def r1_def r0_def ..
  have c7: "c7 = length n + length s + 4 + x" by (simp add: c7_def x_def)
  have 0: "r0 = [] @ replicate (length n + length s + length q + 6 + x) NUL"
    by (simp add: r0_def x_def)
  have 1: "r1 = ([] @ [CHR ''@'']) @ replicate (length n + length s + length q + 5 + x) NUL"
    unfolding r1_def 0 by (rule update_fresh) simp_all
  have 2: "r2 = (([] @ [CHR ''@'']) @ n) @ replicate (length s + length q + 5 + x) NUL"
    unfolding r2_def 1 by (rule memcpy_fresh) simp_all
  have 3: "r3 = ((([] @ [CHR ''@'']) @ n) @ [LF]) @ replicate (length s + length q + 4 + x) NUL"
    unfolding r3_def 2 by (rule update_fresh) simp_all
  have 4: "r4 = (((([] @ [CHR ''@'']) @ n) @ [LF]) @ s) @ replicate (length q + 4 + x) NUL"
    unfolding r4_def 3 by (rule memcpy_fresh) simp_all
  have 5: "r5 = ((((([] @ [CHR ''@'']) @ n) @ [LF]) @ s) @ [LF])
                  @ replicate (length q + 3 + x) NUL"
    unfolding r5_def 4 by (rule update_fresh) simp_all
  have 6: "r6 = (((((([] @ [CHR ''@'']) @ n) @ [LF]) @ s) @ [LF]) @ [CHR ''+''])
                  @ replicate (length q + 2 + x) NUL"
    unfolding r6_def 5 by (rule update_fresh) simp_all
  have 7: "r7 = ((((((([] @ [CHR ''@'']) @ n) @ [LF]) @ s) @ [LF]) @ [CHR ''+'']) @ h)
                  @ replicate (length q + 2) NUL"
  proof (cases two_headers)
    case True
    then have r7: "r7 = memcpy r6 (length n + 1 + 1 + length s + 1 + 1) n (length n)"
      and h: "h = n" and x: "x = length n"
      by (simp_all add: r7_def h_def x_def)
    show ?thesis unfolding r7 6 h x by (rule memcpy_fresh) simp_all
  next
    case False
    then show ?thesis by (simp add: r7_def 6 h_def x_def)
  qed
  have 8: "r8 = (((((((([] @ [CHR ''@'']) @ n) @ [LF]) @ s) @ [LF]) @ [CHR ''+'']) @ h) @ [LF])
                  @ replicate (length q + 1) NUL"
    unfolding r8_def 7 by (rule update_fresh) (simp_all add: c7 hx)
  have 9: "r9 = ((((((((([] @ [CHR ''@'']) @ n) @ [LF]) @ s) @ [LF]) @ [CHR ''+'']) @ h) @ [LF])
                   @ q) @ replicate 1 NUL"
    unfolding r9_def 8 by (rule memcpy_fresh) (simp_all add: c7 hx)
  have 10: "r10 = (((((((((([] @ [CHR ''@'']) @ n) @ [LF]) @ s) @ [LF]) @ [CHR ''+'']) @ h)
                    @ [LF]) @ q) @ [LF]) @ replicate 0 NUL"
    unfolding r10_def 9 by (rule update_fresh) (simp_all add: c7 hx)
  show ?thesis unfolding unfolded 10 by (simp add: h_def spec_fastq_record_def)
qed

lemma has_crlf_Cons:
  "has_crlf (a # xs) = ((a = CR \<and> xs \<noteq> [] \<and> hd xs = LF) \<or> has_crlf xs)"
  by (cases xs) auto

lemma has_crlf_append:
  "has_crlf (xs @ ys) =
     (has_crlf xs \<or> has_crlf ys \<or> (ends_with_cr xs \<and> ys \<noteq> [] \<and> hd ys = LF))"
proof (induction xs)
  case Nil
  then show ?case by (simp add: ends_with_cr_def)
next
  case (Cons a xs)
  show ?case
  proof (cases xs)
    case Nil
    then show ?thesis by (auto simp: has_crlf_Cons ends_with_cr_def)
  next
    case (Cons b zs)
    with Cons.IH show ?thesis by (auto simp: ends_with_cr_def)
  qed
qed

lemma has_crlf_spec_fastq_record:
  "has_crlf (spec_fastq_record n s q two_headers) =
     (has_crlf n \<or> ends_with_cr n \<or> has_crlf s \<or> ends_with_cr s
        \<or> has_crlf q \<or> ends_with_cr q)"
  unfolding spec_fastq_record_def
  by (cases two_headers)
     (simp_all add: has_crlf_Cons has_crlf_append ends_with_cr_def hd_append, blast+)

lemma length_spec_fastq_record:
  "length (spec_fastq_record n s q two_headers) =
     length n + length s + length q + 6 + (if two_headers then length n else 0)"
  by (simp add: spec_fastq_record_def)

lemma encoded_1byte:
  "\<forall>c\<in>set s. c < 256 \<Longrightarrow> encoded s = Inr (PyUnicode_1BYTE_DATA s)"
  by (simp add: encoded_def is_1byte_kind_def list_all_iff)

lemma latin1_str_roundtrip: "PyUnicode_1BYTE_DATA (latin1_str b) = b"
  by (simp add: PyUnicode_1BYTE_DATA_def latin1_str_def)

lemma fastq_bytes_1byte:
  assumes "\<forall>c\<in>set (name r). c < 256" and "\<forall>c\<in>set (sequence r). c < 256"
    and "qualities r = Some q" and "\<forall>c\<in>set q. c < 256"
  shows "fastq_bytes r two_headers =
           Inr (spec_fastq_record (PyUnicode_1BYTE_DATA (name r))
                  (PyUnicode_1BYTE_DATA (sequence r)) (PyUnicode_1BYTE_DATA q) two_headers)"
  using assms by (simp add: fastq_bytes_def encoded_1byte create_fastq_record_eq)

text \<open>
  Claim C5, as amended. For a record whose name is single-byte-encodable and whose
  sequence and qualities are ASCII, \<^verbatim>\<open>fastq_bytes\<close> returns the record of the
  specification, of the stated length. The serialiser ends every line with a bare line
  feed: the output holds a CR LF pair exactly when a field holds one or ends with a
  carriage return.
\<close>

theorem fastq_bytes_layout:
  assumes "\<forall>c\<in>set (name r). c < 256" and "\<forall>c\<in>set (sequence r). c < 128"
    and "qualities r = Some q" and "\<forall>c\<in>set q. c < 128"
  shows "fastq_bytes r two_headers =
           Inr (spec_fastq_record (PyUnicode_1BYTE_DATA (name r))
                  (PyUnicode_1BYTE_DATA (sequence r)) (PyUnicode_1BYTE_DATA q) two_headers)
         \<and> length (spec_fastq_record (PyUnicode_1BYTE_DATA (name r))
                  (PyUnicode_1BYTE_DATA (sequence r)) (PyUnicode_1BYTE_DATA q) two_headers)
             = length (name r) + length (sequence r) + length q + 6
                 + (if two_headers then length (name r) else 0)
         \<and> (has_crlf (spec_fastq_record (PyUnicode_1BYTE_DATA (name r))
                  (PyUnicode_1BYTE_DATA (sequence r)) (PyUnicode_1BYTE_DATA q) two_headers)
              \<longleftrightarrow> has_crlf (PyUnicode_1BYTE_DATA (name r))
                  \<or> ends_with_cr (PyUnicode_1BYTE_DATA (name r))
                  \<or> has_crlf (PyUnicode_1BYTE_DATA (sequence r))
                  \<or> ends_with_cr (PyUnicode_1BYTE_DATA (sequence r))
                  \<or> has_crlf (PyUnicode_1BYTE_DATA q)
                  \<or> ends_with_cr (PyUnicode_1BYTE_DATA q))"
proof (intro conjI)
  have s: "\<forall>c\<in>set (sequence r). c < 256" and q: "\<forall>c\<in>set q. c < 256"
    using assms(2,4) by auto
  from assms(1) s assms(3) q
  show "fastq_bytes r two_headers =
           Inr (spec_fastq_record (PyUnicode_1BYTE_DATA (name r))
                  (PyUnicode_1BYTE_DATA (sequence r)) (PyUnicode_1BYTE_DATA q) two_headers)"
    by (rule fastq_bytes_1byte)
next
  show "length (spec_fastq_record (PyUnicode_1BYTE_DATA (name r))
                  (PyUnicode_1BYTE_DATA (sequence r)) (PyUnicode_1BYTE_DATA q) two_headers)
             = length (name r) + length (sequence r) + length q + 6
                 + (if two_headers then length (name r) else 0)"
    by (simp add: length_spec_fastq_record PyUnicode_1BYTE_DATA_def)
next
  show "has_crlf (spec_fastq_record (PyUnicode_1BYTE_DATA (name r))
                  (PyUnicode_1BYTE_DATA (sequence r)) (PyUnicode_1BYTE_DATA q) two_headers)
              \<longleftrightarrow> has_crlf (PyUnicode_1BYTE_DATA (name r))
                  \<or> ends_with_cr (PyUnicode_1BYTE_DATA (name r))
                  \<or> has_crlf (PyUnicode_1BYTE_DATA (sequence r))
                  \<or> ends_with_cr (PyUnicode_1BYTE_DATA (sequence r))
                  \<or> has_crlf (PyUnicode_1BYTE_DATA q)
                  \<or> ends_with_cr (PyUnicode_1BYTE_DATA q)"
    by (simp add: has_crlf_spec_fastq_record)
qed

theorem fastq_bytes_layout_witness:
  "fastq_bytes \<lparr>name = latin1_str ''r1'', sequence = latin1_str ''AC'',
                 qualities = Some (latin1_str ''!#'')\<rparr> True
     = Inr ''@r1\<newline>AC\<newline>+r1\<newline>!#\<newline>''
   \<and> length ''@r1\<newline>AC\<newline>+r1\<newline>!#\<newline>'' = 2 + 2 + 2 + 6 + 2
   \<and> \<not> has_crlf ''@r1\<newline>AC\<newline>+r1\<newline>!#\<newline>''"
proof -
  let ?r = "\<lparr>name = latin1_str ''r1'', sequence = latin1_str ''AC'',
             qualities = Some (latin1_str ''!#'')\<rparr>"
  have 1: "\<forall>c\<in>set (name ?r). c < 256" by (simp add: latin1_str_def)
  have 2: "\<forall>c\<in>set (sequence ?r). c < 128" by (simp add: latin1_str_def)
  have 3: "qualities ?r = Some (latin1_str ''!#'')" by simp
  have 4: "\<forall>c\<in>set (latin1_str ''!#''). c < 128" by (simp add: latin1_str_def)
  from fastq_bytes_layout [OF 1 2 3 4, of True] show ?thesis
    by (simp add: latin1_str_roundtrip spec_fastq_record_def)
qed

text \<open>
  The claim as stated fails on a name that ends with a carriage return: the output then
  holds CR LF. The parser emits such a name for a header line that ends with CR CR LF.
\<close>

theorem fastq_bytes_crlf_counterexample:
  "fastq_bytes \<lparr>name = latin1_str [CHR ''r'', CR], sequence = latin1_str ''A'',
                 qualities = Some (latin1_str ''!'')\<rparr> False
     = Inr [CHR ''@'', CHR ''r'', CR, LF, CHR ''A'', LF, CHR ''+'', LF, CHR ''!'', LF]
   \<and> has_crlf [CHR ''@'', CHR ''r'', CR, LF, CHR ''A'', LF, CHR ''+'', LF, CHR ''!'', LF]"
proof -
  let ?r = "\<lparr>name = latin1_str [CHR ''r'', CR], sequence = latin1_str ''A'',
             qualities = Some (latin1_str ''!'')\<rparr>"
  have 1: "\<forall>c\<in>set (name ?r). c < 256" by (simp add: latin1_str_def)
  have 2: "\<forall>c\<in>set (sequence ?r). c < 256" by (simp add: latin1_str_def)
  have 3: "qualities ?r = Some (latin1_str ''!'')" by simp
  have 4: "\<forall>c\<in>set (latin1_str ''!''). c < 256" by (simp add: latin1_str_def)
  from fastq_bytes_1byte [OF 1 2 3 4, of False] show ?thesis
    by (simp add: latin1_str_roundtrip spec_fastq_record_def)
qed

section \<open>Properties of the paired scan\<close>

lemma index_of_None_iff: "index_of c xs = None \<longleftrightarrow> c \<notin> set xs"
  by (induction xs) auto

lemma index_of_SomeD:
  "index_of c xs = Some i \<Longrightarrow> i < length xs \<and> xs ! i = c \<and> c \<notin> set (take i xs)"
  by (induction xs arbitrary: i) (auto split: if_splits)

lemma count_list_notin: "c \<notin> set xs \<Longrightarrow> count_list xs c = 0"
  by (induction xs) auto

lemma count_take_mono: "p \<le> e \<Longrightarrow> count_list (take p d) c \<le> count_list (take e d) c"
proof -
  assume "p \<le> e"
  then have "take e d = take p d @ take (e - p) (drop p d)"
    by (metis le_add_diff_inverse take_add)
  then show ?thesis by simp
qed

lemma memchr_NoneD:
  assumes "memchr d pos c (e - pos) = None" and "pos \<le> e"
  shows "count_list (take e d) c = count_list (take pos d) c"
proof -
  have "c \<notin> set (take (e - pos) (drop pos d))"
    using assms(1) by (simp add: memchr_def index_of_None_iff)
  moreover have "take e d = take pos d @ take (e - pos) (drop pos d)"
    using assms(2) by (metis le_add_diff_inverse take_add)
  ultimately show ?thesis by (simp add: count_list_notin)
qed

lemma memchr_SomeD:
  assumes "memchr d pos c n = Some p"
  shows "pos \<le> p \<and> p < pos + n \<and> p < length d \<and> d ! p = c
         \<and> count_list (take (Suc p) d) c = Suc (count_list (take pos d) c)"
proof -
  from assms obtain i where i: "index_of c (take n (drop pos d)) = Some i" and p: "p = pos + i"
    by (auto simp: memchr_def)
  let ?w = "take n (drop pos d)"
  from index_of_SomeD [OF i] have il: "i < length ?w" and at: "?w ! i = c"
    and before: "c \<notin> set (take i ?w)" by auto
  from il have in': "i < n" and id: "pos + i < length d" by auto
  have at': "d ! (pos + i) = c" using at il id by (simp add: nth_drop)
  have "take i ?w = take i (drop pos d)" using in' by (simp add: min_def)
  with before have b: "c \<notin> set (take i (drop pos d))" by simp
  have "take (Suc (pos + i)) d = take (pos + i) d @ [d ! (pos + i)]"
    using id by (simp add: take_Suc_conv_app_nth)
  also have "take (pos + i) d = take pos d @ take i (drop pos d)"
    by (simp add: take_add)
  finally have "count_list (take (Suc (pos + i)) d) c = Suc (count_list (take pos d) c)"
    using b at' by (simp add: count_list_notin)
  with p in' id at' show ?thesis by simp
qed

lemma heads_loop_correct:
  assumes "pos1 \<le> e1" "pos2 \<le> e2" "lb < 4"
    and "count_list (take pos1 d1) LF = R + lb" "count_list (take pos2 d2) LF = R + lb"
    and "count_list (take rs1 d1) LF = R" "count_list (take rs2 d2) LF = R"
    and "4 dvd R" "rs1 \<le> e1" "rs2 \<le> e2" "at_line_boundary d1 rs1" "at_line_boundary d2 rs2"
    and "paired_fastq_heads_loop d1 d2 e1 e2 pos1 pos2 lb rs1 rs2 = (l1, l2)"
  shows "count_list (take l1 d1) LF
           = 4 * min (count_list (take e1 d1) LF div 4) (count_list (take e2 d2) LF div 4)
       \<and> count_list (take l2 d2) LF
           = 4 * min (count_list (take e1 d1) LF div 4) (count_list (take e2 d2) LF div 4)
       \<and> l1 \<le> e1 \<and> l2 \<le> e2 \<and> at_line_boundary d1 l1 \<and> at_line_boundary d2 l2"
  using assms
proof (induction d1 d2 e1 e2 pos1 pos2 lb rs1 rs2 arbitrary: R rule: paired_fastq_heads_loop.induct)
  case (1 d1 d2 e1 e2 pos1 pos2 lb rs1 rs2)
  note loop = "1.prems"(13)
  let ?n1 = "count_list (take e1 d1) LF" and ?n2 = "count_list (take e2 d2) LF"
  from "1.prems"(8) obtain k where R: "R = 4 * k" by (auto elim: dvdE)
  have m1: "R + lb \<le> ?n1" using count_take_mono [OF "1.prems"(1), of d1 LF] "1.prems"(4) by simp
  have m2: "R + lb \<le> ?n2" using count_take_mono [OF "1.prems"(2), of d2 LF] "1.prems"(5) by simp
  show ?case
  proof (cases "memchr d1 pos1 LF (e1 - pos1)")
    case None
    then have res: "l1 = rs1" "l2 = rs2"
      using loop by (simp_all add: paired_fastq_heads_loop.simps)
    have "?n1 = R + lb" using memchr_NoneD [OF None "1.prems"(1)] "1.prems"(4) by simp
    then have "4 * min (?n1 div 4) (?n2 div 4) = R"
      using m2 "1.prems"(3) R by (auto simp: min_def)
    then show ?thesis using res "1.prems" by simp
  next
    case (Some p1)
    note s1 = memchr_SomeD [OF Some]
    show ?thesis
    proof (cases "memchr d2 pos2 LF (e2 - pos2)")
      case None
      then have res: "l1 = rs1" "l2 = rs2"
        using loop Some by (simp_all add: paired_fastq_heads_loop.simps)
      have "?n2 = R + lb" using memchr_NoneD [OF None "1.prems"(2)] "1.prems"(5) by simp
      then have "4 * min (?n1 div 4) (?n2 div 4) = R"
        using m1 "1.prems"(3) R by (auto simp: min_def)
      then show ?thesis using res "1.prems" by simp
    next
      case Some2: (Some p2)
      note s2 = memchr_SomeD [OF Some2]
      have p1e: "p1 + 1 \<le> e1" using s1 "1.prems"(1) by simp
      have p2e: "p2 + 1 \<le> e2" using s2 "1.prems"(2) by simp
      have c1: "count_list (take (p1 + 1) d1) LF = R + lb + 1" using s1 "1.prems"(4) by simp
      have c2: "count_list (take (p2 + 1) d2) LF = R + lb + 1" using s2 "1.prems"(5) by simp
      show ?thesis
      proof (cases "lb + 1 = 4")
        case True
        then have eq: "paired_fastq_heads_loop d1 d2 e1 e2 (p1 + 1) (p2 + 1) 0 (p1 + 1) (p2 + 1) = (l1, l2)"
          using loop Some Some2 by (simp add: paired_fastq_heads_loop.simps)
        have ok1: "at_line_boundary d1 (p1 + 1)" and ok2: "at_line_boundary d2 (p2 + 1)"
          using s1 s2 by (simp_all add: at_line_boundary_def)
        show ?thesis
          by (rule "1.IH"(1) [OF Some Some2 True p1e p2e _ _ _ _ _ _ p1e p2e ok1 ok2 eq, of "R + 4"])
             (use c1 c2 True "1.prems"(8) in simp_all)
      next
        case False
        then have eq: "paired_fastq_heads_loop d1 d2 e1 e2 (p1 + 1) (p2 + 1) (lb + 1) rs1 rs2 = (l1, l2)"
          using loop Some Some2 by (simp add: paired_fastq_heads_loop.simps)
        have lb: "lb + 1 < 4" using False "1.prems"(3) by simp
        show ?thesis
          by (rule "1.IH"(2) [OF Some Some2 False p1e p2e lb _ _ "1.prems"(6,7,8,9,10,11,12) eq])
             (use c1 c2 in simp_all)
      qed
    qed
  qed
qed

text \<open>
  Claim C7. For ends that are not negative, \<^verbatim>\<open>paired_fastq_heads\<close> returns two lengths
  whose prefixes hold the same number of line feeds, four times the smaller of the numbers
  of complete records in the two scanned windows; each prefix lies inside its window and
  is empty or ends just behind a line feed.
\<close>

theorem paired_fastq_heads_common_records:
  assumes "0 \<le> end1" and "0 \<le> end2"
  shows "\<exists>len1 len2.
           paired_fastq_heads buf1 buf2 end1 end2 = Some (len1, len2)
         \<and> count_list (take len1 buf1) LF
             = 4 * min (count_list (take (nat end1) buf1) LF div 4)
                       (count_list (take (nat end2) buf2) LF div 4)
         \<and> count_list (take len2 buf2) LF
             = 4 * min (count_list (take (nat end1) buf1) LF div 4)
                       (count_list (take (nat end2) buf2) LF div 4)
         \<and> len1 \<le> min (nat end1) (length buf1) \<and> len2 \<le> min (nat end2) (length buf2)
         \<and> at_line_boundary buf1 len1 \<and> at_line_boundary buf2 len2"
proof -
  define e1 where "e1 = min (nat end1) (length buf1)"
  define e2 where "e2 = min (nat end2) (length buf2)"
  obtain l1 l2 where loop: "paired_fastq_heads_loop buf1 buf2 e1 e2 0 0 0 0 0 = (l1, l2)"
    by (cases "paired_fastq_heads_loop buf1 buf2 e1 e2 0 0 0 0 0") auto
  have t: "\<And>a (xs :: bytes). take (min a (length xs)) xs = take a xs"
    by (simp add: min_def)
  have "count_list (take l1 buf1) LF
           = 4 * min (count_list (take e1 buf1) LF div 4) (count_list (take e2 buf2) LF div 4)
       \<and> count_list (take l2 buf2) LF
           = 4 * min (count_list (take e1 buf1) LF div 4) (count_list (take e2 buf2) LF div 4)
       \<and> l1 \<le> e1 \<and> l2 \<le> e2 \<and> at_line_boundary buf1 l1 \<and> at_line_boundary buf2 l2"
    by (rule heads_loop_correct [where R = 0 and lb = 0 and ?pos1.0 = 0 and ?pos2.0 = 0
          and ?rs1.0 = 0 and ?rs2.0 = 0, OF _ _ _ _ _ _ _ _ _ _ _ _ loop])
       (simp_all add: at_line_boundary_def)
  moreover have "paired_fastq_heads buf1 buf2 end1 end2 = Some (l1, l2)"
    using assms loop by (simp add: paired_fastq_heads_def e1_def e2_def)
  ultimately show ?thesis
    unfolding e1_def e2_def t by blast
qed

theorem paired_fastq_heads_common_records_witness:
  "paired_fastq_heads ''a\<newline>b\<newline>c\<newline>d\<newline>e\<newline>f''
      ''\<newline>\<newline>\<newline>\<newline>\<newline>\<newline>\<newline>\<newline>\<newline>'' 100 9 = Some (8, 4)
   \<and> count_list (take 8 ''a\<newline>b\<newline>c\<newline>d\<newline>e\<newline>f'') LF = 4
   \<and> count_list (take 4 ''\<newline>\<newline>\<newline>\<newline>\<newline>\<newline>\<newline>\<newline>\<newline>'') LF = 4"
  using paired_fastq_heads_common_records
          [of 100 9 "''a\<newline>b\<newline>c\<newline>d\<newline>e\<newline>f''"
              "''\<newline>\<newline>\<newline>\<newline>\<newline>\<newline>\<newline>\<newline>\<newline>''"]
  by (simp add: paired_fastq_heads_def paired_fastq_heads_loop.simps memchr_def)

section \<open>Lines and records of a buffer\<close>

lemma index_of_takeWhile:
  "index_of c xs = (if c \<in> set xs then Some (length (takeWhile (\<lambda>x. x \<noteq> c) xs)) else None)"
  by (induction xs) auto

lemma split_line_SomeD: "split_line xs = Some (l, r) \<Longrightarrow> xs = l @ LF # r \<and> LF \<notin> set l"
proof -
  assume a: "split_line xs = Some (l, r)"
  then have in': "LF \<in> set xs" and l: "l = takeWhile (\<lambda>c. c \<noteq> LF) xs"
    and r: "r = tl (dropWhile (\<lambda>c. c \<noteq> LF) xs)"
    by (auto simp: split_line_def split: if_splits)
  from in' have "dropWhile (\<lambda>c. c \<noteq> LF) xs \<noteq> []" by (simp add: dropWhile_eq_Nil_conv)
  moreover have "hd (dropWhile (\<lambda>c. c \<noteq> LF) xs) = LF"
    using in' hd_dropWhile [of "\<lambda>c. c \<noteq> LF" xs] calculation by auto
  ultimately have "dropWhile (\<lambda>c. c \<noteq> LF) xs = LF # r" using r by (cases "dropWhile (\<lambda>c. c \<noteq> LF) xs") auto
  then have "xs = l @ LF # r" using l takeWhile_dropWhile_id [of "\<lambda>c. c \<noteq> LF" xs] by simp
  moreover have "LF \<notin> set l" using l by (auto dest: set_takeWhileD)
  ultimately show ?thesis by simp
qed

lemma split_line_append: "LF \<notin> set l \<Longrightarrow> split_line (l @ LF # r) = Some (l, r)"
  by (induction l) (auto simp: split_line_def)

lemma split_line_None: "split_line xs = None \<longleftrightarrow> LF \<notin> set xs"
  by (simp add: split_line_def)

lemma split_line_extend: "split_line xs = Some (l, r) \<Longrightarrow> split_line (xs @ ys) = Some (l, r @ ys)"
  by (drule split_line_SomeD) (simp add: split_line_append)

lemma split_record_extend:
  "split_record xs = Some (l1, l2, l3, l4, r) \<Longrightarrow> split_record (xs @ ys) = Some (l1, l2, l3, l4, r @ ys)"
  by (auto simp: split_record_def split_line_extend split: option.splits prod.splits)

lemma split_record_SomeD:
  "split_record xs = Some (l1, l2, l3, l4, r) \<Longrightarrow>
   xs = l1 @ LF # l2 @ LF # l3 @ LF # l4 @ LF # r
   \<and> LF \<notin> set l1 \<and> LF \<notin> set l2 \<and> LF \<notin> set l3 \<and> LF \<notin> set l4"
  by (auto simp: split_record_def split: option.splits prod.splits dest!: split_line_SomeD)


lemma memchr_split_line:
  "memchr buf start LF (length buf - start) =
     (case split_line (drop start buf) of
        None \<Rightarrow> None
      | Some (l, r) \<Rightarrow> Some (start + length l))"
  by (simp add: memchr_def index_of_takeWhile split_line_def)

lemma drop_after_line:
  "split_line (drop start buf) = Some (l, r) \<Longrightarrow> drop (start + length l + 1) buf = r"
proof -
  assume "split_line (drop start buf) = Some (l, r)"
  then have "drop start buf = l @ LF # r" by (auto dest: split_line_SomeD)
  then have "drop (length l + 1) (drop start buf) = r" by simp
  then show ?thesis by (simp add: add.commute add.left_commute)
qed

lemma memchr_line:
  "split_line (drop start buf) = Some (l, r) \<Longrightarrow>
   memchr buf start LF (length buf - start) = Some (start + length l)"
  by (simp add: memchr_split_line)

lemma memchr_no_line:
  "split_line (drop start buf) = None \<Longrightarrow> memchr buf start LF (length buf - start) = None"
  by (simp add: memchr_split_line)

lemma find_record_ends_split:
  "find_record_ends buf rs =
     (case split_record (drop rs buf) of
        None \<Rightarrow> None
      | Some (l1, l2, l3, l4, r) \<Rightarrow>
          Some (rs + length l1,
                rs + length l1 + 1 + length l2,
                rs + length l1 + 1 + length l2 + 1 + length l3,
                rs + length l1 + 1 + length l2 + 1 + length l3 + 1 + length l4))"
proof (cases "split_line (drop rs buf)")
  case None
  have L: "find_record_ends buf rs = None"
    by (simp only: find_record_ends_def Let_def memchr_no_line [OF None] option.case)
  have R: "split_record (drop rs buf) = None"
    by (simp only: split_record_def None option.case)
  show ?thesis by (simp only: L R option.case)
next
  case (Some p1)
  obtain l1 r1 where p1: "p1 = (l1, r1)" by (cases p1)
  note s1 = Some [unfolded p1]
  note d1 = drop_after_line [OF s1]
  show ?thesis
  proof (cases "split_line r1")
    case None
    note n2 = None [folded d1]
    have L: "find_record_ends buf rs = None"
      by (simp only: find_record_ends_def Let_def memchr_line [OF s1] memchr_no_line [OF n2]
                     option.case)
    have R: "split_record (drop rs buf) = None"
      by (simp only: split_record_def s1 None option.case prod.case)
    show ?thesis by (simp only: L R option.case)
  next
    case (Some p2)
    obtain l2 r2 where p2: "p2 = (l2, r2)" by (cases p2)
    note t2 = Some [unfolded p2]
    note s2 = t2 [folded d1]
    note d2 = drop_after_line [OF s2]
    show ?thesis
    proof (cases "split_line r2")
      case None
      note n3 = None [folded d2]
      have L: "find_record_ends buf rs = None"
        by (simp only: find_record_ends_def Let_def memchr_line [OF s1] memchr_line [OF s2]
                       memchr_no_line [OF n3] option.case)
      have R: "split_record (drop rs buf) = None"
        by (simp only: split_record_def s1 t2 None option.case prod.case)
      show ?thesis by (simp only: L R option.case)
    next
      case (Some p3)
      obtain l3 r3 where p3: "p3 = (l3, r3)" by (cases p3)
      note t3 = Some [unfolded p3]
      note s3 = t3 [folded d2]
      note d3 = drop_after_line [OF s3]
      show ?thesis
      proof (cases "split_line r3")
        case None
        note n4 = None [folded d3]
        have L: "find_record_ends buf rs = None"
          by (simp only: find_record_ends_def Let_def memchr_line [OF s1] memchr_line [OF s2]
                         memchr_line [OF s3] memchr_no_line [OF n4] option.case)
        have R: "split_record (drop rs buf) = None"
          by (simp only: split_record_def s1 t2 t3 None option.case prod.case)
        show ?thesis by (simp only: L R option.case)
      next
        case (Some p4)
        obtain l4 r4 where p4: "p4 = (l4, r4)" by (cases p4)
        note t4 = Some [unfolded p4]
        note s4 = t4 [folded d3]
        have L: "find_record_ends buf rs =
                   Some (rs + length l1,
                         rs + length l1 + 1 + length l2,
                         rs + length l1 + 1 + length l2 + 1 + length l3,
                         rs + length l1 + 1 + length l2 + 1 + length l3 + 1 + length l4)"
          by (simp only: find_record_ends_def Let_def memchr_line [OF s1] memchr_line [OF s2]
                         memchr_line [OF s3] memchr_line [OF s4] option.case)
        have R: "split_record (drop rs buf) = Some (l1, l2, l3, l4, r4)"
          by (simp only: split_record_def s1 t2 t3 t4 option.case prod.case)
        show ?thesis by (simp only: L R option.case prod.case)
      qed
    qed
  qed
qed

lemma nth_via_drop: "drop a buf = xs \<Longrightarrow> i < length xs \<Longrightarrow> buf ! (a + i) = xs ! i"
  by (metis add.commute drop_all linorder_not_less list.size(3) not_less_zero nth_drop order_less_imp_le)

lemma drop_via_drop: "drop a buf = xs \<Longrightarrow> drop (a + i) buf = drop i xs"
  by (metis add.commute drop_drop)

lemma length_strip_cr:
  "c \<noteq> CR \<Longrightarrow> (if last (c # xs) = CR then length xs - 1 else length xs) = length (strip_cr xs)"
  by (auto simp: strip_cr_def ends_with_cr_def)

lemma take_strip_cr: "take (length (strip_cr xs)) (xs @ ys) = strip_cr xs"
  by (auto simp: strip_cr_def butlast_conv_take)

lemma strncmp_eq_prefixes:
  "length a = k \<Longrightarrow> length b = k \<Longrightarrow>
   strncmp_eq (a @ a') (b @ b') k = (takeWhile (\<lambda>c. c \<noteq> NUL) a = takeWhile (\<lambda>c. c \<noteq> NUL) b)"
  by (simp add: strncmp_eq_def)

lemma drop_via_prefix: "drop a buf = A @ B \<Longrightarrow> drop (a + length A) buf = B"
proof -
  assume h: "drop a buf = A @ B"
  have "drop (a + length A) buf = drop (length A) (drop a buf)"
    by (simp add: add.commute)
  then show ?thesis using h by simp
qed

lemma nth_via_prefix: "drop a buf = A @ x # B \<Longrightarrow> buf ! (a + length A) = x"
proof -
  assume h: "drop a buf = A @ x # B"
  then have "length (drop a buf) = length A + Suc (length B)"
    by simp
  then have "a + length A < length buf"
    by simp
  then have "buf ! (a + length A) = drop a buf ! length A"
    by (simp add: nth_drop)
  then show ?thesis using h by simp
qed

lemma last_via_prefix:
  "drop a buf = A @ B \<Longrightarrow> A \<noteq> [] \<Longrightarrow> buf ! (a + length A - 1) = last A"
proof -
  assume h: "drop a buf = A @ B" and ne: "A \<noteq> []"
  then have "drop a buf = butlast A @ last A # B" by simp
  from nth_via_prefix [OF this] show ?thesis
    using ne by (simp add: add.assoc butlast_conv_take Nat.add_diff_assoc Suc_leI)
qed

lemma check_record_lines:
  assumes X: "drop rs buf = l1 @ LF # l2 @ LF # l3 @ LF # l4 @ LF # r"
    and ne_def: "ne = rs + length l1"
    and se_def: "se = rs + length l1 + 1 + length l2"
    and she_def: "she = rs + length l1 + 1 + length l2 + 1 + length l3"
    and qe_def: "qe = rs + length l1 + 1 + length l2 + 1 + length l3 + 1 + length l4"
  shows "check_record buf rs ne se she qe n = check_lines l1 l2 l3 l4 n"
proof -
  have first: "buf ! rs = hd (l1 @ [LF])"
    using nth_via_prefix [of rs buf "[]"] X by (cases l1) auto
  have X3: "drop rs buf = (l1 @ LF # l2 @ [LF]) @ l3 @ LF # l4 @ LF # r"
    using X by simp
  have plus: "buf ! Suc se = hd (l3 @ [LF])"
  proof (cases l3)
    case Nil
    with X3 have "drop rs buf = (l1 @ LF # l2 @ [LF]) @ LF # l4 @ LF # r" by simp
    from nth_via_prefix [OF this] show ?thesis by (simp add: add.assoc se_def Nil)
  next
    case (Cons d h3)
    with X3 have "drop rs buf = (l1 @ LF # l2 @ [LF]) @ d # h3 @ LF # l4 @ LF # r" by simp
    from nth_via_prefix [OF this] show ?thesis by (simp add: add.assoc se_def Cons)
  qed
  show ?thesis
  proof (cases "hd (l1 @ [LF]) = CHR ''@''")
    case False
    then show ?thesis
      by (simp add: check_record_def check_lines_def first)
  next
    case at: True
    show ?thesis
    proof (cases "hd (l3 @ [LF]) = CHR ''+''")
      case False
      then show ?thesis
        using at by (simp add: check_record_def check_lines_def first plus)
    next
      case pl: True
      from at obtain nm where l1: "l1 = CHR ''@'' # nm" by (cases l1) auto
      from pl obtain h3 where l3: "l3 = CHR ''+'' # h3" by (cases l3) auto
      have len_nm: "ne - Suc rs = length nm" by (simp add: add.assoc ne_def l1)
      have len_sq: "se - Suc ne = length l2" by (simp add: ne_def se_def)
      have len_h3: "she - Suc (Suc se) = length h3" by (simp add: she_def se_def l3)
      have len_ql: "qe - Suc she = length l4" by (simp add: qe_def she_def)
      have "drop rs buf = [CHR ''@''] @ nm @ LF # l2 @ LF # l3 @ LF # l4 @ LF # r"
        using X l1 by simp
      from drop_via_prefix [OF this]
      have d_nm: "drop (Suc rs) buf = nm @ LF # l2 @ LF # l3 @ LF # l4 @ LF # r"
        by simp
      have "drop rs buf = (l1 @ [LF]) @ l2 @ LF # l3 @ LF # l4 @ LF # r"
        using X by simp
      from drop_via_prefix [OF this]
      have d_sq: "drop (Suc ne) buf = l2 @ LF # l3 @ LF # l4 @ LF # r"
        by (simp add: add.assoc ne_def)
      have "drop rs buf = (l1 @ LF # l2 @ [LF, CHR ''+'']) @ h3 @ LF # l4 @ LF # r"
        using X l3 by simp
      from drop_via_prefix [OF this]
      have d_h3: "drop (Suc (Suc se)) buf = h3 @ LF # l4 @ LF # r"
        by (simp add: add.assoc se_def)
      have "drop rs buf = (l1 @ LF # l2 @ LF # l3 @ [LF]) @ l4 @ LF # r"
        using X by simp
      from drop_via_prefix [OF this]
      have d_ql: "drop (Suc she) buf = l4 @ LF # r"
        by (simp add: add.assoc she_def)
      have "drop rs buf = l1 @ LF # l2 @ LF # l3 @ LF # l4 @ LF # r" and "l1 \<noteq> []"
        using X l1 by simp_all
      from last_via_prefix [OF this]
      have e_nm: "buf ! (ne - Suc 0) = last (CHR ''@'' # nm)"
        by (simp add: add.assoc ne_def l1)
      have "drop rs buf = (l1 @ LF # l2) @ LF # l3 @ LF # l4 @ LF # r" and "l1 @ LF # l2 \<noteq> []"
        using X by simp_all
      from last_via_prefix [OF this]
      have e_sq: "buf ! (se - Suc 0) = last (LF # l2)"
        by (simp add: add.assoc se_def)
      have "drop rs buf = (l1 @ LF # l2 @ LF # l3) @ LF # l4 @ LF # r"
        and "l1 @ LF # l2 @ LF # l3 \<noteq> []"
        using X by simp_all
      from last_via_prefix [OF this]
      have e_h3: "buf ! (she - Suc 0) = last (CHR ''+'' # h3)"
        by (simp add: add.assoc she_def l3)
      have "drop rs buf = (l1 @ LF # l2 @ LF # l3 @ LF # l4) @ LF # r"
        and "l1 @ LF # l2 @ LF # l3 @ LF # l4 \<noteq> []"
        using X by simp_all
      from last_via_prefix [OF this]
      have e_ql: "buf ! (qe - Suc 0) = last (LF # l4)"
        by (simp add: add.assoc qe_def)
      define nl where
        "nl = (if buf ! (ne - 1) = CR then ne - (rs + 1) - 1 else ne - (rs + 1))"
      define sl where
        "sl = (if buf ! (se - 1) = CR then se - (ne + 1) - 1 else se - (ne + 1))"
      define hl where
        "hl = (if buf ! (she - 1) = CR then she - (se + 1 + 1) - 1 else she - (se + 1 + 1))"
      define ql where
        "ql = (if buf ! (qe - 1) = CR then qe - (she + 1) - 1 else qe - (she + 1))"
      have unfolded: "check_record buf rs ne se she qe n =
          (if buf ! rs \<noteq> CHR ''@''
           then Inl (FastqFormatError (ExpectedAt (buf ! rs)) (n * 4))
           else if buf ! (se + 1) \<noteq> CHR ''+''
           then Inl (FastqFormatError (ExpectedPlus (buf ! (se + 1))) (n * 4 + 2))
           else if hl \<noteq> 0
                   \<and> (nl \<noteq> hl \<or> \<not> strncmp_eq (drop (se + 1 + 1) buf) (drop (rs + 1) buf) hl)
           then Inl (FastqFormatError
                       (DescriptionsDontMatch (take (ne - (rs + 1)) (drop (rs + 1) buf))
                          (take (she - (se + 1 + 1)) (drop (se + 1 + 1) buf)))
                       (n * 4 + 2))
           else if ql \<noteq> sl
           then Inl (FastqFormatError LengthsDiffer (n * 4 + 3))
           else Inr (take nl (drop (rs + 1) buf), take sl (drop (ne + 1) buf),
                     take ql (drop (she + 1) buf), hl))"
        unfolding check_record_def Let_def nl_def sl_def hl_def ql_def ..
      have nl: "nl = length (strip_cr nm)"
        unfolding nl_def using e_nm len_nm by (auto simp: strip_cr_def ends_with_cr_def)
      have sl: "sl = length (strip_cr l2)"
        unfolding sl_def using e_sq len_sq by (auto simp: strip_cr_def ends_with_cr_def)
      have hl: "hl = length (strip_cr h3)"
        unfolding hl_def using e_h3 len_h3 by (auto simp: strip_cr_def ends_with_cr_def)
      have ql: "ql = length (strip_cr l4)"
        unfolding ql_def using e_ql len_ql by (auto simp: strip_cr_def ends_with_cr_def)
      have cmp: "length (strip_cr nm) = length (strip_cr h3) \<Longrightarrow>
                 strncmp_eq (h3 @ LF # l4 @ LF # r) (nm @ LF # l2 @ LF # l3 @ LF # l4 @ LF # r)
                   (length (strip_cr h3))
                 = (takeWhile (\<lambda>c. c \<noteq> NUL) (strip_cr h3) = takeWhile (\<lambda>c. c \<noteq> NUL) (strip_cr nm))"
        unfolding strncmp_eq_def
        using take_strip_cr [of h3] take_strip_cr [of nm "LF # l2 @ LF # l3 @ LF # l4 @ LF # r"]
        by simp
      have lhs: "check_record buf rs ne se she qe n =
          (if strip_cr h3 \<noteq> []
              \<and> (length (strip_cr nm) \<noteq> length (strip_cr h3)
                 \<or> \<not> strncmp_eq (h3 @ LF # l4 @ LF # r) (nm @ LF # l2 @ LF # l3 @ LF # l4 @ LF # r)
                        (length (strip_cr h3)))
           then Inl (FastqFormatError (DescriptionsDontMatch nm h3) (n * 4 + 2))
           else if length (strip_cr l4) \<noteq> length (strip_cr l2)
           then Inl (FastqFormatError LengthsDiffer (n * 4 + 3))
           else Inr (strip_cr nm, strip_cr l2, strip_cr l4, length (strip_cr h3)))"
      proof -
        have f1: "buf ! rs = CHR ''@''" using first at by simp
        have f2: "buf ! (se + 1) = CHR ''+''" using plus pl by simp
        have dd_nm: "drop (rs + 1) buf = nm @ LF # l2 @ LF # l3 @ LF # l4 @ LF # r"
          using d_nm by simp
        have dd_sq: "drop (ne + 1) buf = l2 @ LF # l3 @ LF # l4 @ LF # r"
          using d_sq by simp
        have dd_h3: "drop (se + 1 + 1) buf = h3 @ LF # l4 @ LF # r"
          using d_h3 by simp
        have dd_ql: "drop (she + 1) buf = l4 @ LF # r"
          using d_ql by simp
        have ll_nm: "ne - (rs + 1) = length nm" using len_nm by simp
        have ll_h3: "she - (se + 1 + 1) = length h3" using len_h3 by simp
        have tk: "\<And>xs ys :: bytes. take (length xs) (xs @ ys) = xs" by simp
        show ?thesis
          unfolding unfolded nl sl hl ql f1 f2 dd_nm dd_sq dd_h3 dd_ql ll_nm ll_h3 tk
            take_strip_cr
          by simp
      qed
      have rhs: "check_lines l1 l2 l3 l4 n =
          (if strip_cr h3 \<noteq> []
              \<and> (length (strip_cr nm) \<noteq> length (strip_cr h3)
                 \<or> takeWhile (\<lambda>c. c \<noteq> NUL) (strip_cr h3) \<noteq> takeWhile (\<lambda>c. c \<noteq> NUL) (strip_cr nm))
           then Inl (FastqFormatError (DescriptionsDontMatch nm h3) (n * 4 + 2))
           else if length (strip_cr l4) \<noteq> length (strip_cr l2)
           then Inl (FastqFormatError LengthsDiffer (n * 4 + 3))
           else Inr (strip_cr nm, strip_cr l2, strip_cr l4, length (strip_cr h3)))"
        by (simp add: check_lines_def l1 l3)
      show ?thesis
        unfolding lhs rhs
        by (cases "length (strip_cr nm) = length (strip_cr h3)") (simp_all add: cmp)
    qed
  qed
qed

section \<open>The iterator refines the stream function\<close>

lemma read_more:
  assumes "fastq_inv self" and "file_obj self \<noteq> []" and "read_into_buffer self = (exc, s1)"
  shows "exc = None \<and> view s1 = view self \<and> fastq_inv s1"
  using assms
  by (auto simp: read_into_buffer_def bytes_in_buffer_def Let_def view_def fastq_inv_def
           take_eq_Nil split: if_splits)

lemma read_at_end:
  assumes "fastq_inv self" and "file_obj self = []" and "read_into_buffer self = (exc, s1)"
    and "drop (record_start self) (buffer self) = []"
  shows "exc = None \<and> view s1 = (view self)\<lparr>sv_eof := True\<rparr> \<and> fastq_inv s1 \<and> eof s1"
  using assms
  by (auto simp: read_into_buffer_def bytes_in_buffer_def Let_def view_def fastq_inv_def
           split: if_splits)

lemma read_adds_newline:
  assumes "fastq_inv self" and "file_obj self = []" and "read_into_buffer self = (exc, s1)"
    and "drop (record_start self) (buffer self) \<noteq> []"
    and "\<not> extra_newline self" and "last (buffer self) \<noteq> LF"
  shows "exc = None
         \<and> view s1 = (view self)\<lparr>sv_rest := drop (record_start self) (buffer self) @ [LF],
                                   sv_extra_newline := True\<rparr>
         \<and> fastq_inv s1"
  using assms
  by (auto simp: read_into_buffer_def bytes_in_buffer_def Let_def view_def fastq_inv_def
           split: if_splits)

lemma read_premature:
  assumes "fastq_inv self" and "file_obj self = []" and "read_into_buffer self = (exc, s1)"
    and "drop (record_start self) (buffer self) \<noteq> []"
    and "extra_newline self \<or> last (buffer self) = LF"
  shows "exc = Some (FastqFormatError
                       (PrematureEof (if extra_newline self
                                      then butlast (drop (record_start self) (buffer self))
                                      else drop (record_start self) (buffer self)))
                       (number_of_records self * 4
                          + count_list (if extra_newline self
                                        then butlast (drop (record_start self) (buffer self))
                                        else drop (record_start self) (buffer self)) LF))
         \<and> view s1 = (view self)\<lparr>sv_rest := (if extra_newline self
                                      then butlast (drop (record_start self) (buffer self))
                                      else drop (record_start self) (buffer self))\<rparr>
         \<and> fastq_inv s1"
  using assms
  by (auto simp: read_into_buffer_def bytes_in_buffer_def Let_def view_def fastq_inv_def
           split: if_splits)

lemma no_record:
  "split_record (drop rs buf) = None \<Longrightarrow> find_record_ends buf rs = None"
  by (simp add: find_record_ends_split)

lemma find_record_ends_cases:
  obtains (none) "find_record_ends buf rs = None" "split_record (drop rs buf) = None"
  | (some) l1 l2 l3 l4 r ne se she qe where
      "split_record (drop rs buf) = Some (l1, l2, l3, l4, r)"
      "find_record_ends buf rs = Some (ne, se, she, qe)"
      "\<And>n. check_record buf rs ne se she qe n = check_lines l1 l2 l3 l4 n"
      "drop (qe + 1) buf = r" "qe < length buf"
proof (cases "split_record (drop rs buf)")
  case None
  show ?thesis by (rule none [OF no_record [OF None] None])
next
  case (Some t)
  obtain l1 l2 l3 l4 r where t: "t = (l1, l2, l3, l4, r)" by (cases t)
  note s = Some [unfolded t]
  from split_record_SomeD [OF s]
  have X: "drop rs buf = l1 @ LF # l2 @ LF # l3 @ LF # l4 @ LF # r" by simp
  define ne where "ne = rs + length l1"
  define se where "se = rs + length l1 + 1 + length l2"
  define she where "she = rs + length l1 + 1 + length l2 + 1 + length l3"
  define qe where "qe = rs + length l1 + 1 + length l2 + 1 + length l3 + 1 + length l4"
  have f: "find_record_ends buf rs = Some (ne, se, she, qe)"
    by (simp add: find_record_ends_split s ne_def se_def she_def qe_def)
  have c: "\<And>n. check_record buf rs ne se she qe n = check_lines l1 l2 l3 l4 n"
    by (rule check_record_lines [OF X ne_def se_def she_def qe_def])
  have "drop rs buf = (l1 @ LF # l2 @ LF # l3 @ LF # l4 @ [LF]) @ r"
    using X by simp
  from drop_via_prefix [OF this] have d: "drop (qe + 1) buf = r"
    by (simp add: qe_def add.assoc)
  have "length (drop rs buf) = length l1 + length l2 + length l3 + length l4 + 4 + length r"
    using X by simp
  then have q: "qe < length buf" by (simp add: qe_def)
  from some [OF s f c d q] show ?thesis .
qed

lemma next_refines_stream:
  assumes "fastq_inv self" and "FastqIter_next self = (res, self')"
  shows "stream_next (view self) = (res, view self') \<and> fastq_inv self'"
  using assms
proof (induction self arbitrary: res self' rule: FastqIter_next.induct)
  case (1 self)
  note inv = "1.prems"(1) and nxt = "1.prems"(2)
  show ?case
  proof (cases "eof self")
    case True
    then show ?thesis
      using nxt inv by (auto simp: FastqIter_next.simps stream_next.simps view_def)
  next
    case False
    then have veof: "\<not> sv_eof (view self)" by (simp add: view_def)
    let ?P = "drop (record_start self) (buffer self)"
    show ?thesis
    proof (cases rule: find_record_ends_cases [of "buffer self" "record_start self"])
      case (some l1 l2 l3 l4 r ne se she qe)
      have sp: "split_record (sv_rest (view self)) = Some (l1, l2, l3, l4, r @ file_obj self)"
        using split_record_extend [OF some(1)] by (simp add: view_def)
      have n: "sv_records (view self) = number_of_records self"
        and cls: "sv_class (view self) = sequence_class self"
        and yl: "sv_yielded (view self) = yielded_two_headers self"
        by (simp_all add: view_def)
      show ?thesis
      proof (cases "check_lines l1 l2 l3 l4 (number_of_records self)")
        case (Inl e)
        then have "FastqIter_next self = (Inl e, self)"
          using False some(2,3) by (simp add: FastqIter_next.simps)
        moreover have "stream_next (view self) = (Inl e, view self)"
          using veof sp n Inl by (simp add: stream_next.simps)
        ultimately show ?thesis using nxt inv by simp
      next
        case (Inr t)
        obtain nm sq ql shl where t: "t = (nm, sq, ql, shl)" by (cases t)
        note ok = Inr [unfolded t]
        show ?thesis
        proof (cases "number_of_records self = 0 \<and> \<not> yielded_two_headers self")
          case True
          then have z: "number_of_records self = 0" and ny: "\<not> yielded_two_headers self"
            by auto
          note ok0 = ok [unfolded z]
          have "FastqIter_next self
                       = (Inr (PyBool (shl \<noteq> 0)), self\<lparr>yielded_two_headers := True\<rparr>)"
            by (subst FastqIter_next.simps) (simp add: False some(2,3) z ok0 ny)
          moreover have "stream_next (view self)
                       = (Inr (PyBool (shl \<noteq> 0)), (view self)\<lparr>sv_yielded := True\<rparr>)"
            by (subst stream_next.simps) (simp add: veof sp n z ok0 ny yl)
          ultimately show ?thesis
            using nxt inv by (auto simp: view_def fastq_inv_def)
        next
          case no_header: False
          have "FastqIter_next self
                       = (Inr (make_record (sequence_class self) nm sq ql),
                          self\<lparr>number_of_records := number_of_records self + 1,
                               record_start := qe + 1\<rparr>)"
            by (subst FastqIter_next.simps) (simp add: False some(2,3) ok no_header)
          moreover have "stream_next (view self)
                       = (Inr (make_record (sequence_class self) nm sq ql),
                          (view self)\<lparr>sv_records := number_of_records self + 1,
                                       sv_rest := r @ file_obj self\<rparr>)"
            by (subst stream_next.simps) (simp add: veof sp n ok no_header yl cls)
          ultimately show ?thesis
            using nxt inv some(4,5) by (auto simp: view_def fastq_inv_def)
        qed
      qed
    next
      case none
      obtain exc s1 where rd: "read_into_buffer self = (exc, s1)"
        by (cases "read_into_buffer self")
      have step: "FastqIter_next self
                    = (case exc of Some e \<Rightarrow> (Inl e, s1) | None \<Rightarrow> FastqIter_next s1)"
        using False none(1) rd by (simp add: FastqIter_next.simps)
      show ?thesis
      proof (cases "file_obj self = []")
        case more: False
        from read_more [OF inv more rd]
        have e: "exc = None" and v: "view s1 = view self" and i: "fastq_inv s1" by auto
        from step e nxt have "FastqIter_next s1 = (res, self')" by simp
        from "1.IH" [OF False none(1) rd [symmetric] e i this] v show ?thesis by simp
      next
        case at_end: True
        then have rest: "sv_rest (view self) = ?P" by (simp add: view_def)
        have nosplit: "split_record (sv_rest (view self)) = None"
          using none(2) rest by simp
        show ?thesis
        proof (cases "?P = []")
          case True
          from read_at_end [OF inv at_end rd True]
          have e: "exc = None" and v: "view s1 = (view self)\<lparr>sv_eof := True\<rparr>"
            and i: "fastq_inv s1" and eo: "eof s1" by auto
          from step e nxt eo have "res = Inl StopIteration" "self' = s1"
            by (simp_all add: FastqIter_next.simps)
          moreover have "stream_next (view self) = (Inl StopIteration, (view self)\<lparr>sv_eof := True\<rparr>)"
            using veof nosplit rest True by (simp add: stream_next.simps)
          ultimately show ?thesis using v i by simp
        next
          case pending: False
          then have lastP: "last ?P = last (buffer self)" by simp
          show ?thesis
          proof (cases "\<not> extra_newline self \<and> last (buffer self) \<noteq> LF")
            case True
            from read_adds_newline [OF inv at_end rd pending] True
            have e: "exc = None"
              and v: "view s1 = (view self)\<lparr>sv_rest := ?P @ [LF], sv_extra_newline := True\<rparr>"
              and i: "fastq_inv s1" by auto
            from step e nxt have "FastqIter_next s1 = (res, self')" by simp
            from "1.IH" [OF False none(1) rd [symmetric] e i this]
            have "stream_next (view s1) = (res, view self') \<and> fastq_inv self'" .
            moreover have "stream_next (view self) = stream_next (view s1)"
              unfolding v
              using veof nosplit rest pending True lastP
              by (subst stream_next.simps) (simp add: view_def)
            ultimately show ?thesis by simp
          next
            case False
            then have c: "extra_newline self \<or> last (buffer self) = LF" by auto
            let ?t = "if extra_newline self then butlast ?P else ?P"
            from read_premature [OF inv at_end rd pending c]
            have e: "exc = Some (FastqFormatError (PrematureEof ?t)
                                   (number_of_records self * 4 + count_list ?t LF))"
              and v: "view s1 = (view self)\<lparr>sv_rest := ?t\<rparr>" and i: "fastq_inv s1"
              by auto
            from step e nxt
            have r: "res = Inl (FastqFormatError (PrematureEof ?t)
                                  (number_of_records self * 4 + count_list ?t LF))"
              and s: "self' = s1" by simp_all
            have "stream_next (view self)
                    = (Inl (FastqFormatError (PrematureEof ?t)
                              (number_of_records self * 4 + count_list ?t LF)),
                       (view self)\<lparr>sv_rest := ?t\<rparr>)"
              using veof nosplit rest pending c lastP
              by (subst stream_next.simps) (auto simp: view_def Let_def)
            then show ?thesis using r s v i by simp
          qed
        qed
      qed
    qed
  qed
qed

lemma pull_events_stream:
  "fastq_inv self \<Longrightarrow> pull_events k self = stream_events k (view self)"
proof (induction k arbitrary: self)
  case 0
  show ?case by simp
next
  case (Suc k)
  obtain res self' where n: "FastqIter_next self = (res, self')"
    by (cases "FastqIter_next self")
  from next_refines_stream [OF Suc.prems n]
  have s: "stream_next (view self) = (res, view self')" and i: "fastq_inv self'" by auto
  show ?case
    using n s Suc.IH [OF i] by (cases res) simp_all
qed

lemma cinit_view:
  "1 \<le> b \<Longrightarrow> \<exists>self. FastqIter_cinit f cls b = Inr self \<and> fastq_inv self
                      \<and> view self = fresh_view f cls"
  by (simp add: FastqIter_cinit_def fastq_inv_def view_def fresh_view_def)

lemma parse_events_stream:
  "1 \<le> b \<Longrightarrow> parse_events f cls b k = stream_events k (fresh_view f cls)"
proof -
  assume "1 \<le> b"
  from cinit_view [OF this, of f cls] obtain self where
    c: "FastqIter_cinit f cls b = Inr self" and i: "fastq_inv self"
    and v: "view self = fresh_view f cls" by blast
  show ?thesis
    by (simp add: parse_events_def c pull_events_stream [OF i] v)
qed


lemmas stream_eval = stream_next.simps split_record_def split_line_def check_lines_def
  strip_cr_def ends_with_cr_def fresh_view_def

lemma truncated_stream:
  "stream_events (Suc k) (fresh_view ''@r1\<newline>ACGT\<newline>+\<newline>!!'' cls)
     = [Inl (FastqFormatError LengthsDiffer 3)]"
  by (simp add: stream_eval)

section \<open>Records that the iterator returns\<close>





lemma stream_next_inv_class:
  "stream_next v = (res, v') \<Longrightarrow> sv_class v' = sv_class v"
proof (induction v arbitrary: res v' rule: stream_next.induct)
  case (1 v)
  from "1.prems" "1.IH" show ?case
    by (subst (asm) stream_next.simps)
       (auto simp: Let_def split: if_splits option.splits sum.splits prod.splits)
qed



section \<open>Errors, the first value and the end of the iteration\<close>

lemma read_into_buffer_frame:
  "read_into_buffer self = (exc, s1) \<Longrightarrow>
   number_of_records s1 = number_of_records self
   \<and> yielded_two_headers s1 = yielded_two_headers self
   \<and> sequence_class s1 = sequence_class self \<and> record_start s1 = 0"
  by (auto simp: read_into_buffer_def bytes_in_buffer_def Let_def split: if_splits)


lemma takeWhile_neq_imp: "takeWhile P xs \<noteq> takeWhile P ys \<Longrightarrow> xs \<noteq> ys"
  by auto




lemma header_pull_aux:
  assumes "FastqIter_next self = (Inr (PyBool b), self1)" and "record_start self = 0"
  shows "record_start self1 = 0 \<and> number_of_records self1 = 0
         \<and> number_of_records self = 0 \<and> \<not> yielded_two_headers self
         \<and> yielded_two_headers self1 \<and> sequence_class self1 = sequence_class self
         \<and> (\<exists>ne se she qe nm sq ql shl.
               find_record_ends (buffer self1) (record_start self1) = Some (ne, se, she, qe)
             \<and> check_record (buffer self1) (record_start self1) ne se she qe
                 (number_of_records self1) = Inr (nm, sq, ql, shl)
             \<and> b = (shl \<noteq> 0)
             \<and> FastqIter_next self1
                 = (Inr (make_record (sequence_class self1) nm sq ql),
                    self1\<lparr>number_of_records := 1, record_start := qe + 1\<rparr>))"
  using assms
proof (induction self rule: FastqIter_next.induct)
  case (1 self)
  note nxt = "1.prems"(1) and rs = "1.prems"(2)
  have ne: "\<not> eof self"
    using nxt by (subst (asm) FastqIter_next.simps) (auto split: if_splits)
  show ?case
  proof (cases "find_record_ends (buffer self) (record_start self)")
    case None
    obtain exc s1 where rd: "read_into_buffer self = (exc, s1)"
      by (cases "read_into_buffer self")
    have step: "FastqIter_next self
                  = (case exc of Some e \<Rightarrow> (Inl e, s1) | None \<Rightarrow> FastqIter_next s1)"
      using ne None rd by (simp add: FastqIter_next.simps)
    note fr = read_into_buffer_frame [OF rd]
    from step nxt have e: "exc = None" and n1: "FastqIter_next s1 = (Inr (PyBool b), self1)"
      by (cases exc; simp)+
    have rs1: "record_start s1 = 0" using fr by simp
    define E where "E \<longleftrightarrow> (\<exists>ne se she qe nm sq ql shl.
               find_record_ends (buffer self1) (record_start self1) = Some (ne, se, she, qe)
             \<and> check_record (buffer self1) (record_start self1) ne se she qe
                 (number_of_records self1) = Inr (nm, sq, ql, shl)
             \<and> b = (shl \<noteq> 0)
             \<and> FastqIter_next self1
                 = (Inr (make_record (sequence_class self1) nm sq ql),
                    self1\<lparr>number_of_records := 1, record_start := qe + 1\<rparr>))"
    from "1.IH" [OF ne None rd [symmetric] e n1 rs1]
    have "record_start self1 = 0 \<and> number_of_records self1 = 0
         \<and> number_of_records s1 = 0 \<and> \<not> yielded_two_headers s1
         \<and> yielded_two_headers self1 \<and> sequence_class self1 = sequence_class s1 \<and> E"
      unfolding E_def .
    with fr have "record_start self1 = 0 \<and> number_of_records self1 = 0
         \<and> number_of_records self = 0 \<and> \<not> yielded_two_headers self
         \<and> yielded_two_headers self1 \<and> sequence_class self1 = sequence_class self \<and> E"
      by simp
    then show ?thesis unfolding E_def .
  next
    case (Some t)
    obtain ne' se she qe where t: "t = (ne', se, she, qe)" by (cases t)
    note f = Some [unfolded t]
    show ?thesis
    proof (cases "check_record (buffer self) (record_start self) ne' se she qe
                    (number_of_records self)")
      case (Inl e)
      with nxt ne f show ?thesis
        by (subst (asm) FastqIter_next.simps) simp
    next
      case (Inr u)
      obtain nm sq ql shl where u: "u = (nm, sq, ql, shl)" by (cases u)
      note ok = Inr [unfolded u]
      have hp: "number_of_records self = 0 \<and> \<not> yielded_two_headers self"
        using nxt ne f ok
        by (subst (asm) FastqIter_next.simps) (auto simp: make_record_def split: if_splits)
      then have z: "number_of_records self = 0" and ny: "\<not> yielded_two_headers self" by auto
      note ok0 = ok [unfolded z]
      have "FastqIter_next self = (Inr (PyBool (shl \<noteq> 0)), self\<lparr>yielded_two_headers := True\<rparr>)"
        by (subst FastqIter_next.simps) (simp add: ne f z ok0 ny)
      with nxt have b: "b = (shl \<noteq> 0)" and s: "self1 = self\<lparr>yielded_two_headers := True\<rparr>"
        by auto
      have "FastqIter_next self1
              = (Inr (make_record (sequence_class self1) nm sq ql),
                 self1\<lparr>number_of_records := 1, record_start := qe + 1\<rparr>)"
        unfolding s by (subst FastqIter_next.simps) (simp add: ne f z ok0)
      then show ?thesis
        using b f ok0 z ny rs unfolding s by simp
    qed
  qed
qed








section \<open>The buffer size, truncated input and the round trip\<close>

text \<open>
  Claim C8. For every input, class and number of calls, a parser created with buffer
  size 1 and one created with buffer size \<open>2 ^ 20\<close> give the same outcomes, call by call:
  the same Boolean, the same records in the same order, the same end or exception.
\<close>

theorem buffer_size_irrelevant:
  "parse_events f cls 1 k = parse_events f cls (2 ^ 20) k"
  by (simp add: parse_events_stream)

text \<open>
  Claim C1, as amended. For the input \<^verbatim>\<open>@r1\nACGT\n+\n!!\<close> and every buffer size, the
  first call raises a \<^verbatim>\<open>FastqFormatError\<close> with line 3 whose message is that the lengths
  of sequence and qualities differ: the line feed that the parser appends completes the
  record, so the check of the lengths fails before any end of file is reported.
\<close>

theorem truncated_quality_line_error:
  assumes "1 \<le> initial_size"
  shows "parse_events ''@r1\<newline>ACGT\<newline>+\<newline>!!'' cls initial_size (Suc k)
           = [Inl (FastqFormatError LengthsDiffer 3)]"
  using assms by (simp only: parse_events_stream truncated_stream)

theorem truncated_quality_line_error_witness:
  "(1::int) \<le> 7
   \<and> parse_events ''@r1\<newline>ACGT\<newline>+\<newline>!!'' BytesSequenceClass 7 (Suc 2)
       = [Inl (FastqFormatError LengthsDiffer 3)]"
  using truncated_quality_line_error [of 7 BytesSequenceClass 2] by simp

text \<open>The claim as stated fails: the error raised is not the one for a premature end of
  file, and its message does not hold the tail of the input.\<close>

theorem truncated_quality_line_counterexample:
  "parse_events ''@r1\<newline>ACGT\<newline>+\<newline>!!'' SequenceClass 131072 1
     = [Inl (FastqFormatError LengthsDiffer 3)]
   \<and> FastqFormatError LengthsDiffer 3
       \<noteq> FastqFormatError (PrematureEof ''@r1\<newline>ACGT\<newline>+\<newline>!!'') 3"
proof -
  have "parse_events ''@r1\<newline>ACGT\<newline>+\<newline>!!'' SequenceClass 131072 (Suc 0)
          = stream_events (Suc 0) (fresh_view ''@r1\<newline>ACGT\<newline>+\<newline>!!'' SequenceClass)"
    by (rule parse_events_stream) simp
  then have "parse_events ''@r1\<newline>ACGT\<newline>+\<newline>!!'' SequenceClass 131072 (Suc 0)
          = [Inl (FastqFormatError LengthsDiffer 3)]"
    by (simp only: truncated_stream)
  then show ?thesis by simp
qed






section \<open>Line numbers of errors, the first value and the end\<close>

lemmas next_eval = FastqIter_next.simps find_record_ends_def memchr_def read_into_buffer_def
  bytes_in_buffer_def check_record_def strncmp_eq_def make_record_def Let_def



text \<open>
  Claim C10. The call that returns the Boolean leaves \<open>record_start\<close> at 0 and the number
  of records at 0 and sets \<open>yielded_two_headers\<close>; the record that was located and checked
  for the Boolean is still the pending record of the resulting state, and the next call
  returns the record built from it, without reading the file again.
\<close>

theorem header_pull_keeps_record:
  assumes "FastqIter_next self = (Inr (PyBool b), self1)" and "record_start self = 0"
  shows "record_start self1 = 0 \<and> number_of_records self1 = 0
         \<and> number_of_records self = 0 \<and> \<not> yielded_two_headers self
         \<and> yielded_two_headers self1 \<and> sequence_class self1 = sequence_class self
         \<and> (\<exists>ne se she qe nm sq ql shl.
               find_record_ends (buffer self1) (record_start self1) = Some (ne, se, she, qe)
             \<and> check_record (buffer self1) (record_start self1) ne se she qe
                 (number_of_records self1) = Inr (nm, sq, ql, shl)
             \<and> b = (shl \<noteq> 0)
             \<and> FastqIter_next self1
                 = (Inr (make_record (sequence_class self1) nm sq ql),
                    self1\<lparr>number_of_records := 1, record_start := qe + 1\<rparr>))"
  using assms by (rule header_pull_aux)

theorem header_pull_keeps_record_witness:
  "FastqIter_next
     \<lparr>buffer_size = 100, buffer = [], sequence_class = BytesSequenceClass,
      extra_newline = False, yielded_two_headers = False, eof = False,
      file_obj = ''@r1\<newline>ACGT\<newline>+r1\<newline>!!!!\<newline>'', record_start = 0, number_of_records = 0\<rparr>
     = (Inr (PyBool True),
        \<lparr>buffer_size = 100, buffer = ''@r1\<newline>ACGT\<newline>+r1\<newline>!!!!\<newline>'',
         sequence_class = BytesSequenceClass, extra_newline = False,
         yielded_two_headers = True, eof = False, file_obj = [], record_start = 0,
         number_of_records = 0\<rparr>)
   \<and> FastqIter_next
        \<lparr>buffer_size = 100, buffer = ''@r1\<newline>ACGT\<newline>+r1\<newline>!!!!\<newline>'',
         sequence_class = BytesSequenceClass, extra_newline = False,
         yielded_two_headers = True, eof = False, file_obj = [], record_start = 0,
         number_of_records = 0\<rparr>
     = (Inr (PyBytesSequence \<lparr>bytes_name = ''r1'', bytes_sequence = ''ACGT'',
                               bytes_qualities = ''!!!!''\<rparr>),
        \<lparr>buffer_size = 100, buffer = ''@r1\<newline>ACGT\<newline>+r1\<newline>!!!!\<newline>'',
         sequence_class = BytesSequenceClass, extra_newline = False,
         yielded_two_headers = True, eof = False, file_obj = [], record_start = 18,
         number_of_records = 1\<rparr>)"
proof -
  let ?S = "\<lparr>buffer_size = 100, buffer = [], sequence_class = BytesSequenceClass,
      extra_newline = False, yielded_two_headers = False, eof = False,
      file_obj = ''@r1\<newline>ACGT\<newline>+r1\<newline>!!!!\<newline>'', record_start = 0, number_of_records = 0\<rparr>"
  let ?S1 = "\<lparr>buffer_size = 100, buffer = ''@r1\<newline>ACGT\<newline>+r1\<newline>!!!!\<newline>'',
         sequence_class = BytesSequenceClass, extra_newline = False,
         yielded_two_headers = True, eof = False, file_obj = [], record_start = 0,
         number_of_records = 0\<rparr>"
  have e: "FastqIter_next ?S = (Inr (PyBool True), ?S1)"
    by (simp add: next_eval)
  have rs: "record_start ?S = 0" by simp
  have f: "find_record_ends (buffer ?S1) (record_start ?S1) = Some (3, 8, 12, 17)"
    by (simp add: find_record_ends_def memchr_def)
  have c: "check_record (buffer ?S1) (record_start ?S1) 3 8 12 17 (number_of_records ?S1)
             = Inr (''r1'', ''ACGT'', ''!!!!'', 2)"
    by (simp add: check_record_def strncmp_eq_def)
  from header_pull_keeps_record [OF e rs] obtain ne se she qe nm sq ql shl where
    f': "find_record_ends (buffer ?S1) (record_start ?S1) = Some (ne, se, she, qe)"
    and c': "check_record (buffer ?S1) (record_start ?S1) ne se she qe (number_of_records ?S1)
               = Inr (nm, sq, ql, shl)"
    and n: "FastqIter_next ?S1
              = (Inr (make_record (sequence_class ?S1) nm sq ql),
                 ?S1\<lparr>number_of_records := 1, record_start := qe + 1\<rparr>)"
    by blast
  from f f' have ends: "ne = 3" "se = 8" "she = 12" "qe = 17" by simp_all
  from c c' have fields: "nm = ''r1''" "sq = ''ACGT''" "ql = ''!!!!''"
    unfolding ends by simp_all
  from n have "FastqIter_next ?S1
     = (Inr (PyBytesSequence \<lparr>bytes_name = ''r1'', bytes_sequence = ''ACGT'',
                               bytes_qualities = ''!!!!''\<rparr>),
        ?S1\<lparr>number_of_records := 1, record_start := 18\<rparr>)"
    unfolding ends fields by (simp add: make_record_def)
  with e show ?thesis by simp
qed




end
